theory Spec2Isabelle
  imports Complex_Main
begin

section \<open>Error records\<close>

text \<open>
  The dictionary built by \<open>LogFileHandler._extract_error_info\<close> always has the same six
  keys, so it is a record. Strings are lists of 8-bit characters: the model is exact for
  ASCII log lines, where Python's code points and the file's bytes coincide.
\<close>

record error_info =
  timestamp :: string
  level :: string
  message :: string
  line :: string
  matched_keyword :: string
  detected_at :: string

section \<open>Strings as Python handles them\<close>

text \<open>
  The few operations of \<open>str\<close> and \<open>re\<close> that the watcher uses, on ASCII text.
\<close>

definition LF :: char where
  "LF = CHR 0x0A"

definition CR :: char where
  "CR = CHR 0x0D"

text \<open>\<open>str.isspace\<close> on ASCII: tab, LF, VT, FF, CR, the separators 0x1C to 0x1F, space.\<close>

definition is_space :: "char \<Rightarrow> bool" where
  "is_space c = (c \<in> set [CHR 0x09, CHR 0x0A, CHR 0x0B, CHR 0x0C, CHR 0x0D,
                            CHR 0x1C, CHR 0x1D, CHR 0x1E, CHR 0x1F, CHR 0x20])"

definition is_digit :: "char \<Rightarrow> bool" where
  "is_digit c = (c \<in> set ''0123456789'')"

definition lowercase :: string where
  "lowercase = ''abcdefghijklmnopqrstuvwxyz''"

definition uppercase :: string where
  "uppercase = ''ABCDEFGHIJKLMNOPQRSTUVWXYZ''"

definition is_word_char :: "char \<Rightarrow> bool" where
  "is_word_char c = (c \<in> set lowercase \<or> c \<in> set uppercase \<or> is_digit c \<or> c = CHR ''_'')"

definition upper_char :: "char \<Rightarrow> char" where
  "upper_char c = (case map_of (zip lowercase uppercase) c of Some u \<Rightarrow> u | None \<Rightarrow> c)"

definition lower_char :: "char \<Rightarrow> char" where
  "lower_char c = (case map_of (zip uppercase lowercase) c of Some u \<Rightarrow> u | None \<Rightarrow> c)"

definition upper :: "string \<Rightarrow> string" where
  "upper s = map upper_char s"

text \<open>\<open>s.strip(chars)\<close> and \<open>s.strip()\<close>.\<close>

definition strip_chars :: "string \<Rightarrow> string \<Rightarrow> string" where
  "strip_chars chars s =
     rev (dropWhile (\<lambda>c. c \<in> set chars) (rev (dropWhile (\<lambda>c. c \<in> set chars) s)))"

definition strip :: "string \<Rightarrow> string" where
  "strip s = rev (dropWhile is_space (rev (dropWhile is_space s)))"

text \<open>\<open>s.split(d)\<close> for a separator of one character: \<open>''''.split(d) = ['''']\<close>.\<close>

fun split_on :: "char \<Rightarrow> string \<Rightarrow> string list" where
  "split_on d [] = [[]]"
| "split_on d (c # cs) =
     (if c = d then [] # split_on d cs
      else (case split_on d cs of w # ws \<Rightarrow> (c # w) # ws | [] \<Rightarrow> [[c]]))"

definition starts_with :: "string \<Rightarrow> string \<Rightarrow> bool" where
  "starts_with p s = (take (length p) s = p)"

text \<open>\<open>sub in s\<close>.\<close>

fun contains :: "string \<Rightarrow> string \<Rightarrow> bool" where
  "contains sub [] = (sub = [])"
| "contains sub (c # cs) = (starts_with sub (c # cs) \<or> contains sub cs)"

text \<open>
  \<open>s.split(sep, 1)\<close> for a non-empty \<open>sep\<close> (an empty one raises \<open>ValueError\<close>; the
  only separator used is a level name): \<open>[s]\<close> when \<open>sep\<close> does not occur, else the text
  before and the text after its first occurrence.
\<close>

fun split1 :: "string \<Rightarrow> string \<Rightarrow> string list" where
  "split1 [] sep = [[]]"
| "split1 (c # cs) sep =
     (if starts_with sep (c # cs) then [[], drop (length sep) (c # cs)]
      else (case split1 cs sep of p # rest \<Rightarrow> (c # p) # rest | [] \<Rightarrow> [[c]]))"

text \<open>
  Text mode with the default \<open>newline=None\<close>: on reading, \<open>\r\n\<close> and a lone \<open>\r\<close>
  become \<open>\n\<close>.
\<close>

fun universal_newlines :: "string \<Rightarrow> string" where
  "universal_newlines [] = []"
| "universal_newlines [c] = [if c = CR then LF else c]"
| "universal_newlines (c # d # cs) =
     (if c = CR \<and> d = LF then LF # universal_newlines cs
      else (if c = CR then LF else c) # universal_newlines (d # cs))"

subsection \<open>The regular expressions of the extractor\<close>

text \<open>
  The timestamp patterns are sequences of \<open>\d\<close> and literal characters around one group:
  \<open>(\d{4}-\d{2}-\d{2} \d{2}:\d{2}:\d{2})\<close> and the same between \<open>\[\<close> and \<open>\]\<close>.
\<close>

datatype re_atom = Digit | Lit char

fun match_atoms :: "re_atom list \<Rightarrow> string \<Rightarrow> bool" where
  "match_atoms [] s = True"
| "match_atoms (a # as) [] = False"
| "match_atoms (Digit # as) (c # cs) = (is_digit c \<and> match_atoms as cs)"
| "match_atoms (Lit x # as) (c # cs) = (c = x \<and> match_atoms as cs)"

text \<open>
  \<open>re.search\<close> of \<open>pre(grp)post\<close>: the leftmost position where the pattern matches, and
  \<open>group(1)\<close> of the match there.
\<close>

fun re_search_group :: "re_atom list \<Rightarrow> re_atom list \<Rightarrow> re_atom list \<Rightarrow> string \<Rightarrow> string option" where
  "re_search_group pre grp post [] =
     (if match_atoms (pre @ grp @ post) [] then Some [] else None)"
| "re_search_group pre grp post (c # cs) =
     (if match_atoms (pre @ grp @ post) (c # cs)
      then Some (take (length grp) (drop (length pre) (c # cs)))
      else re_search_group pre grp post cs)"

definition timestamp_group :: "re_atom list" where
  "timestamp_group =
     [Digit, Digit, Digit, Digit, Lit CHR ''-'', Digit, Digit, Lit CHR ''-'', Digit, Digit,
      Lit CHR '' '', Digit, Digit, Lit CHR '':'', Digit, Digit, Lit CHR '':'', Digit, Digit]"

definition timestamp_patterns :: "(re_atom list \<times> re_atom list \<times> re_atom list) list" where
  "timestamp_patterns =
     [([], timestamp_group, []),
      ([Lit CHR ''[''], timestamp_group, [Lit CHR '']''])]"

text \<open>The loop over the patterns: the first one that matches gives the timestamp.\<close>

fun first_timestamp :: "(re_atom list \<times> re_atom list \<times> re_atom list) list \<Rightarrow> string \<Rightarrow> string option" where
  "first_timestamp [] s = None"
| "first_timestamp ((pre, grp, post) # ps) s =
     (case re_search_group pre grp post s of
        Some g \<Rightarrow> Some g
      | None \<Rightarrow> first_timestamp ps s)"

text \<open>
  The level patterns are \<open>\b(A|B|...)\b\<close> under \<open>re.IGNORECASE\<close>. \<open>\b\<close> holds between two
  positions of which exactly one carries a word character; the ends of the string carry
  none.
\<close>

definition word_boundary :: "char option \<Rightarrow> char option \<Rightarrow> bool" where
  "word_boundary left right =
     ((case left of None \<Rightarrow> False | Some c \<Rightarrow> is_word_char c)
        \<noteq> (case right of None \<Rightarrow> False | Some c \<Rightarrow> is_word_char c))"

definition first_char :: "string \<Rightarrow> char option" where
  "first_char s = (case s of [] \<Rightarrow> None | c # cs \<Rightarrow> Some c)"

definition ci_starts_with :: "string \<Rightarrow> string \<Rightarrow> bool" where
  "ci_starts_with p s = (map lower_char (take (length p) s) = map lower_char p)"

text \<open>
  At one position: the alternatives in order; one is taken when it matches the text
  and \<open>\b\<close> holds after it, else the next is tried.
\<close>

fun match_alternatives :: "string list \<Rightarrow> char option \<Rightarrow> string \<Rightarrow> string option" where
  "match_alternatives [] prev s = None"
| "match_alternatives (a # as) prev s =
     (if ci_starts_with a s
         \<and> word_boundary (if a = [] then prev else Some (last (take (length a) s)))
                          (first_char (drop (length a) s))
      then Some (take (length a) s)
      else match_alternatives as prev s)"

text \<open>\<open>re.search\<close>: the leftmost position with \<open>\b\<close> before it where an alternative is taken.\<close>

fun search_level :: "string list \<Rightarrow> char option \<Rightarrow> string \<Rightarrow> string option" where
  "search_level alts prev [] =
     (if word_boundary prev None then match_alternatives alts prev [] else None)"
| "search_level alts prev (c # cs) =
     (case (if word_boundary prev (Some c) then match_alternatives alts prev (c # cs) else None) of
        Some g \<Rightarrow> Some g
      | None \<Rightarrow> search_level alts (Some c) cs)"

definition level_patterns :: "string list list" where
  "level_patterns =
     [[''ERROR'', ''CRITICAL'', ''FATAL'', ''EXCEPTION'', ''FAIL''],
      [''WARN'', ''WARNING'']]"

fun first_level :: "string list list \<Rightarrow> string \<Rightarrow> string option" where
  "first_level [] s = None"
| "first_level (alts # ps) s =
     (case search_level alts None s of
        Some g \<Rightarrow> Some (upper g)
      | None \<Rightarrow> first_level ps s)"

text \<open>
  A compiled keyword is what its \<open>search\<close> answers on a line. \<open>re.compile\<close> is a parameter
  of the handler's construction; it yields no pattern where the keyword is not a regular
  expression (\<open>re.error\<close>). For a keyword of letters and digits,
  \<open>re.compile(k, re.IGNORECASE).search\<close> is the search for \<open>k\<close> as a substring, case
  ignored: \<open>compile_literal\<close>.
\<close>

type_synonym pattern = "string \<Rightarrow> bool"

fun ci_contains :: "string \<Rightarrow> string \<Rightarrow> bool" where
  "ci_contains k [] = (k = [])"
| "ci_contains k (c # cs) = (ci_starts_with k (c # cs) \<or> ci_contains k cs)"

definition compile_literal :: "string \<Rightarrow> pattern option" where
  "compile_literal k = Some (ci_contains k)"

section \<open>log\_watcher\_component.py\<close>

subsection \<open>The world outside: the file, the clock, the events\<close>

text \<open>
  The file at \<open>log_file_path\<close> as one call of \<open>on_modified\<close> finds it: absent, present but
  not readable as text (\<open>open\<close> or \<open>read\<close> raises; \<open>os.path.getsize\<close> still answers), or
  readable with its content. The size check and the read of one call see the same file.
\<close>

datatype log_file = Absent | Unreadable nat | Readable string

text \<open>
  \<open>datetime.now()\<close> as \<open>strftime("%Y-%m-%d %H:%M:%S")\<close> and as \<open>isoformat()\<close> give it; the
  readings within one call of \<open>on_modified\<close> are taken to be the same.
\<close>

record clock =
  now_strftime :: string
  now_isoformat :: string

record fs_event =
  is_directory :: bool
  src_path :: string

text \<open>
  The callback is known by whether it returns or raises on a record. What the handler
  does is observed as a trace: the reads (offset sought, count asked, text got), the
  lines handed to \<open>_process_log_line\<close>, the calls of the callback, the exceptions an
  \<open>except\<close> clause caught.
\<close>

datatype outcome = Returns | Raises

datatype watch_event =
    Read nat nat string
  | Line string
  | Alert error_info
  | Caught

record LogFileHandler =
  log_file_path :: string
  error_keywords :: "string list"
  callback :: "(error_info \<Rightarrow> outcome) option"
  last_position :: nat
  error_patterns :: "pattern list"

subsection \<open>LogFileHandler\<close>

definition get_file_size :: "log_file \<Rightarrow> nat" where
  "get_file_size f = (case f of Absent \<Rightarrow> 0 | Unreadable n \<Rightarrow> n | Readable s \<Rightarrow> length s)"

definition LogFileHandler_init ::
  "(string \<Rightarrow> pattern option) \<Rightarrow> log_file \<Rightarrow> string \<Rightarrow> string list
     \<Rightarrow> (error_info \<Rightarrow> outcome) option \<Rightarrow> LogFileHandler option" where
  "LogFileHandler_init re_compile f path keywords cb =
     (case those (map re_compile keywords) of
        None \<Rightarrow> None
      | Some ps \<Rightarrow>
          Some \<lparr>log_file_path = path, error_keywords = keywords, callback = cb,
                last_position = get_file_size f, error_patterns = ps\<rparr>)"

definition extract_error_info :: "clock \<Rightarrow> string \<Rightarrow> string \<Rightarrow> error_info" where
  "extract_error_info now l keyword =
     (let extracted_timestamp = first_timestamp timestamp_patterns l;
          extracted_timestamp =
            (case extracted_timestamp of
               None \<Rightarrow> now_strftime now
             | Some g \<Rightarrow> if g = [] then now_strftime now else g);
          extracted_level =
            (case first_level level_patterns l of None \<Rightarrow> ''UNKNOWN'' | Some g \<Rightarrow> g);
          msg =
            (if contains extracted_level l
             then (let parts = split1 l extracted_level in
                   if length parts > 1 then strip (strip_chars '':'' (parts ! 1)) else l)
             else l)
      in \<lparr>timestamp = extracted_timestamp, level = extracted_level, message = strip msg,
          line = strip l, matched_keyword = keyword, detected_at = now_isoformat now\<rparr>)"

text \<open>
  The loop of \<open>_process_log_line\<close> over \<open>zip(error_patterns, error_keywords)\<close>, with its
  \<open>break\<close> after the first pattern found. The result is the trace and whether the call
  returned or raised; only the callback can raise in it.
\<close>

fun check_patterns ::
  "clock \<Rightarrow> (error_info \<Rightarrow> outcome) option \<Rightarrow> string \<Rightarrow> (pattern \<times> string) list
     \<Rightarrow> watch_event list \<times> outcome" where
  "check_patterns now cb l [] = ([], Returns)"
| "check_patterns now cb l ((p, keyword) # rest) =
     (if p l
      then (let info = extract_error_info now l keyword in
            case cb of
              Some f \<Rightarrow> ([Alert info], f info)
            | None \<Rightarrow> ([], Returns))
      else check_patterns now cb l rest)"

definition process_log_line :: "clock \<Rightarrow> LogFileHandler \<Rightarrow> string \<Rightarrow> watch_event list \<times> outcome" where
  "process_log_line now h l =
     check_patterns now (callback h) l (zip (error_patterns h) (error_keywords h))"

text \<open>
  The \<open>for line in lines\<close> loop of \<open>_read_new_content\<close>. It has no handler of its own: an
  exception of \<open>_process_log_line\<close> ends it.
\<close>

fun process_lines :: "clock \<Rightarrow> LogFileHandler \<Rightarrow> string list \<Rightarrow> watch_event list \<times> outcome" where
  "process_lines now h [] = ([], Returns)"
| "process_lines now h (l # ls) =
     (if strip l \<noteq> []
      then (case process_log_line now h l of
              (evs, Raises) \<Rightarrow> (Line l # evs, Raises)
            | (evs, Returns) \<Rightarrow>
                (case process_lines now h ls of (evs', r) \<Rightarrow> (Line l # evs @ evs', r)))
      else process_lines now h ls)"

text \<open>
  \<open>file.read(n)\<close> in text mode returns at most \<open>n\<close> characters of the translated text,
  all of it for a negative \<open>n\<close>.
\<close>

definition read_text :: "string \<Rightarrow> nat \<Rightarrow> nat \<Rightarrow> string" where
  "read_text content pos current_size =
     (if current_size < pos then universal_newlines (drop pos content)
      else take (current_size - pos) (universal_newlines (drop pos content)))"

definition read_new_content ::
  "clock \<Rightarrow> log_file \<Rightarrow> nat \<Rightarrow> LogFileHandler \<Rightarrow> LogFileHandler \<times> watch_event list" where
  "read_new_content now f current_size h =
     (case f of
        Readable content \<Rightarrow>
          (let new_content = read_text content (last_position h) current_size;
               ev = Read (last_position h) (current_size - last_position h) new_content;
               h' = h\<lparr>last_position := current_size\<rparr>
           in if strip new_content \<noteq> []
              then (case process_lines now h' (split_on LF (strip new_content)) of
                      (evs, Returns) \<Rightarrow> (h', ev # evs)
                    | (evs, Raises) \<Rightarrow> (h', ev # evs @ [Caught]))
              else (h', [ev]))
      | _ \<Rightarrow> (h, [Caught]))"

text \<open>
  \<open>on_modified\<close>. Its own \<open>try\<close> has nothing left to catch: \<open>_get_file_size\<close> and
  \<open>_read_new_content\<close> catch what they raise.
\<close>

definition on_modified ::
  "clock \<Rightarrow> log_file \<Rightarrow> fs_event \<Rightarrow> LogFileHandler \<Rightarrow> LogFileHandler \<times> watch_event list" where
  "on_modified now f event h =
     (if is_directory event \<or> src_path event \<noteq> log_file_path h then (h, [])
      else (let current_size = get_file_size f;
                h1 = (if current_size < last_position h then h\<lparr>last_position := 0\<rparr> else h)
            in if current_size \<le> last_position h1 then (h1, [])
               else read_new_content now f current_size h1))"

text \<open>
  A run of the watcher: the calls of \<open>on_modified\<close> in order, each with the clock, the
  file and the event it finds.
\<close>

fun run :: "(clock \<times> log_file \<times> fs_event) list \<Rightarrow> LogFileHandler \<Rightarrow> LogFileHandler \<times> watch_event list" where
  "run [] h = (h, [])"
| "run ((now, f, event) # rest) h =
     (case on_modified now f event h of
        (h', evs) \<Rightarrow> (case run rest h' of (h'', evs') \<Rightarrow> (h'', evs @ evs')))"

section \<open>notification\_manager.py\<close>

subsection \<open>RateLimiter\<close>

text \<open>
  \<open>time.time()\<close> is read once per call of \<open>should_send_notification\<close>; the reading
  is a parameter of the model. Clock readings and the interval are real numbers.
\<close>

record RateLimiter =
  min_interval :: real
  last_notification_time :: real

definition RateLimiter_init :: "real \<Rightarrow> RateLimiter" where
  "RateLimiter_init min_interval_seconds =
     \<lparr>min_interval = min_interval_seconds, last_notification_time = 0\<rparr>"

definition should_send_notification :: "real \<Rightarrow> RateLimiter \<Rightarrow> bool \<times> RateLimiter" where
  "should_send_notification current_time rl =
     (let time_since_last = current_time - last_notification_time rl in
      if time_since_last \<ge> min_interval rl
      then (True, rl\<lparr>last_notification_time := current_time\<rparr>)
      else (False, rl))"

definition reset :: "RateLimiter \<Rightarrow> RateLimiter" where
  "reset rl = rl\<lparr>last_notification_time := 0\<rparr>"

text \<open>
  A sequence of calls of \<open>should_send_notification\<close>, one per clock reading, on the same
  limiter: the answers in call order and the limiter afterwards.
\<close>

fun permit_calls :: "real list \<Rightarrow> RateLimiter \<Rightarrow> bool list \<times> RateLimiter" where
  "permit_calls [] rl = ([], rl)"
| "permit_calls (t # ts) rl =
     (let r = should_send_notification t rl;
          rs = permit_calls ts (snd r)
      in (fst r # fst rs, snd rs))"

definition granted :: "bool list \<Rightarrow> nat" where
  "granted bs = length (filter (\<lambda>b. b) bs)"

subsection \<open>Notifiers\<close>

text \<open>
  The SMTP session and the webhook POST are outside the program. A notifier is modelled
  by the outcome of the body of its \<open>try\<close> block on a record: it runs to the end
  (\<open>Delivered\<close>) or raises (\<open>Raised\<close>). \<open>send_alert\<close> is the \<open>try\<close>/\<open>except Exception\<close>
  around it.
\<close>

datatype delivery = Delivered | Raised

type_synonym transport = "error_info \<Rightarrow> delivery"

definition email_send_alert :: "transport \<Rightarrow> error_info \<Rightarrow> bool" where
  "email_send_alert smtp info = (case smtp info of Delivered \<Rightarrow> True | Raised \<Rightarrow> False)"

definition slack_send_alert :: "transport \<Rightarrow> error_info \<Rightarrow> bool" where
  "slack_send_alert webhook info = (case webhook info of Delivered \<Rightarrow> True | Raised \<Rightarrow> False)"

subsection \<open>NotificationManager\<close>

record NotificationManager =
  rate_limiter :: RateLimiter
  email_notifier :: "transport option"
  slack_notifier :: "transport option"

datatype channel = Email | Slack

record alert_results =
  email_sent :: bool
  slack_sent :: bool
  any_sent :: bool

text \<open>
  Beside its boolean, each \<open>send_*_alert\<close> returns the list of notifiers whose
  \<open>send_alert\<close> it called, so that "attempted" is observable.
\<close>

definition send_email_alert :: "NotificationManager \<Rightarrow> error_info \<Rightarrow> bool \<times> channel list" where
  "send_email_alert nm info =
     (case email_notifier nm of
        Some n \<Rightarrow> (email_send_alert n info, [Email])
      | None \<Rightarrow> (False, []))"

definition send_slack_alert :: "NotificationManager \<Rightarrow> error_info \<Rightarrow> bool \<times> channel list" where
  "send_slack_alert nm info =
     (case slack_notifier nm of
        Some n \<Rightarrow> (slack_send_alert n info, [Slack])
      | None \<Rightarrow> (False, []))"

definition send_all_alerts ::
  "real \<Rightarrow> NotificationManager \<Rightarrow> error_info
     \<Rightarrow> alert_results \<times> channel list \<times> NotificationManager" where
  "send_all_alerts current_time nm info =
     (let results = \<lparr>email_sent = False, slack_sent = False, any_sent = False\<rparr> in
      case should_send_notification current_time (rate_limiter nm) of
        (permit, rl') \<Rightarrow>
          (let nm' = nm\<lparr>rate_limiter := rl'\<rparr> in
           if \<not> permit then (results, [], nm')
           else
             (case send_email_alert nm' info of
                (e, tr1) \<Rightarrow>
                  (let results = results\<lparr>email_sent := e\<rparr> in
                   case send_slack_alert nm' info of
                     (s, tr2) \<Rightarrow>
                       (let results = results\<lparr>slack_sent := s\<rparr>;
                            results = results\<lparr>any_sent := email_sent results \<or> slack_sent results\<rparr>
                        in (results, tr1 @ tr2, nm'))))))"

definition no_results :: alert_results where
  "no_results = \<lparr>email_sent = False, slack_sent = False, any_sent = False\<rparr>"

text \<open>A record as \<open>_extract_error_info\<close> builds it, used where a concrete one is needed.\<close>

definition sample_info :: error_info where
  "sample_info = \<lparr>timestamp = ''2024-01-15 14:30:25'', level = ''ERROR'',
     message = ''Database connection failed'',
     line = ''2024-01-15 14:30:25 ERROR: Database connection failed'',
     matched_keyword = ''ERROR'', detected_at = ''2024-01-15T14:30:26''\<rparr>"

section \<open>What is observed and what the specification asks\<close>

text \<open>Projections of a trace: the lines handed on, the callback's records, the reads.\<close>

fun lines_handed :: "watch_event list \<Rightarrow> string list" where
  "lines_handed [] = []"
| "lines_handed (Line l # evs) = l # lines_handed evs"
| "lines_handed (ev # evs) = lines_handed evs"

fun alerts :: "watch_event list \<Rightarrow> error_info list" where
  "alerts [] = []"
| "alerts (Alert info # evs) = info # alerts evs"
| "alerts (ev # evs) = alerts evs"

fun reads :: "watch_event list \<Rightarrow> (nat \<times> nat \<times> string) list" where
  "reads [] = []"
| "reads (Read pos n txt # evs) = (pos, n, txt) # reads evs"
| "reads (ev # evs) = reads evs"

definition nonblank :: "string list \<Rightarrow> string list" where
  "nonblank ls = filter (\<lambda>l. strip l \<noteq> []) ls"

text \<open>The file sizes that a run finds, in order.\<close>

definition sizes_seen :: "(clock \<times> log_file \<times> fs_event) list \<Rightarrow> nat list" where
  "sizes_seen evs = map (\<lambda>(now, f, event). get_file_size f) evs"

text \<open>
  A string of the form \<open>YYYY-MM-DD HH:MM:SS\<close>: nineteen characters, digits where the
  pattern has \<open>\d\<close>.
\<close>

definition timestamp_shaped :: "string \<Rightarrow> bool" where
  "timestamp_shaped s = (length s = length timestamp_group \<and> match_atoms timestamp_group s)"

text \<open>
  The specification's "parseable back to a valid calendar date-time": a string of that
  form whose fields are a date of the calendar (years from 1, as \<open>datetime\<close> has them)
  and a time of day.
\<close>

definition digit_value :: "char \<Rightarrow> nat" where
  "digit_value c = of_char c - 48"

definition number :: "string \<Rightarrow> nat" where
  "number s = foldl (\<lambda>n c. 10 * n + digit_value c) 0 s"

definition leap_year :: "nat \<Rightarrow> bool" where
  "leap_year y = (y mod 4 = 0 \<and> (y mod 100 \<noteq> 0 \<or> y mod 400 = 0))"

definition days_in_month :: "nat \<Rightarrow> nat \<Rightarrow> nat" where
  "days_in_month y m =
     (if m = 2 then (if leap_year y then 29 else 28)
      else if m \<in> set [4, 6, 9, 11] then 30 else 31)"

definition valid_datetime :: "string \<Rightarrow> bool" where
  "valid_datetime s =
     (timestamp_shaped s \<and>
      (let y = number (take 4 s); m = number (take 2 (drop 5 s));
           d = number (take 2 (drop 8 s)); hh = number (take 2 (drop 11 s));
           mm = number (take 2 (drop 14 s)); ss = number (take 2 (drop 17 s))
       in 1 \<le> y \<and> 1 \<le> m \<and> m \<le> 12 \<and> 1 \<le> d \<and> d \<le> days_in_month y m
          \<and> hh \<le> 23 \<and> mm \<le> 59 \<and> ss \<le> 59))"

text \<open>Concrete surroundings for the examples.\<close>

definition noon :: clock where
  "noon = \<lparr>now_strftime = ''2026-11-03 12:00:00'', now_isoformat = ''2026-11-03T12:00:00''\<rparr>"

definition app_log :: string where
  "app_log = ''/var/log/app.log''"

definition app_log_event :: fs_event where
  "app_log_event = \<lparr>is_directory = False, src_path = app_log\<rparr>"

text \<open>
  The lines that a read of the file from \<open>pos\<close> to its end yields: the text is stripped,
  split at LF, and the blank pieces are left out.
\<close>

definition fresh_lines :: "string \<Rightarrow> nat \<Rightarrow> string list" where
  "fresh_lines content pos = nonblank (split_on LF (strip (universal_newlines (drop pos content))))"

text \<open>
  A handler watching \<open>app_log\<close> for the keyword \<open>ERROR\<close>, as \<open>LogFileHandler_init\<close> with
  \<open>compile_literal\<close> builds it, at a given offset; a callback that returns, and one that
  raises on the record of one line.
\<close>

definition returning :: "error_info \<Rightarrow> outcome" where
  "returning info = Returns"

definition raising_on :: "string \<Rightarrow> error_info \<Rightarrow> outcome" where
  "raising_on l info = (if line info = l then Raises else Returns)"

definition error_watcher :: "(error_info \<Rightarrow> outcome) \<Rightarrow> nat \<Rightarrow> LogFileHandler" where
  "error_watcher cb pos =
     \<lparr>log_file_path = app_log, error_keywords = [''ERROR''], callback = Some cb,
      last_position = pos, error_patterns = [ci_contains ''ERROR'']\<rparr>"

definition line_a :: string where
  "line_a = ''ERROR a'' @ [LF]"

definition line_b :: string where
  "line_b = ''ERROR b'' @ [LF]"

definition line_c :: string where
  "line_c = ''login ok'' @ [LF]"

section \<open>Facts about the watcher\<close>

lemma length_universal_newlines: "length (universal_newlines s) \<le> length s"
  by (induction s rule: universal_newlines.induct) auto

lemma read_text_whole:
  "pos \<le> length content \<Longrightarrow>
   read_text content pos (length content) = universal_newlines (drop pos content)"
  using length_universal_newlines [of "drop pos content"]
  by (simp add: read_text_def)

lemma lines_handed_append: "lines_handed (xs @ ys) = lines_handed xs @ lines_handed ys"
  by (induction xs rule: lines_handed.induct) auto

lemma alerts_append: "alerts (xs @ ys) = alerts xs @ alerts ys"
  by (induction xs rule: alerts.induct) auto

lemma reads_append: "reads (xs @ ys) = reads xs @ reads ys"
  by (induction xs rule: reads.induct) auto

lemma check_patterns_cases:
  "check_patterns now cb l ps = ([], Returns)
   \<or> (\<exists>f k. cb = Some f \<and> k \<in> snd ` set ps
        \<and> check_patterns now cb l ps
            = ([Alert (extract_error_info now l k)], f (extract_error_info now l k)))"
proof (induction ps)
  case Nil
  then show ?case by simp
next
  case (Cons pk ps)
  obtain p k where pk: "pk = (p, k)" by (cases pk)
  show ?case
  proof (cases "p l")
    case True
    then show ?thesis using pk by (cases cb) (auto simp: Let_def)
  next
    case False
    then show ?thesis using pk Cons.IH by auto
  qed
qed

lemma process_log_line_cases:
  "process_log_line now h l = ([], Returns)
   \<or> (\<exists>f k. callback h = Some f \<and> k \<in> set (error_keywords h)
        \<and> process_log_line now h l
            = ([Alert (extract_error_info now l k)], f (extract_error_info now l k)))"
proof -
  have "snd ` set (zip (error_patterns h) (error_keywords h)) \<subseteq> set (error_keywords h)"
    by (auto dest: set_zip_rightD)
  then show ?thesis
    using check_patterns_cases [of now "callback h" l "zip (error_patterns h) (error_keywords h)"]
    unfolding process_log_line_def by blast
qed

lemma process_log_line_no_lines: "lines_handed (fst (process_log_line now h l)) = []"
  using process_log_line_cases [of now h l] by auto

lemma process_log_line_no_reads: "reads (fst (process_log_line now h l)) = []"
  using process_log_line_cases [of now h l] by auto

lemma process_log_line_position:
  "process_log_line now (h\<lparr>last_position := n\<rparr>) l = process_log_line now h l"
  by (simp add: process_log_line_def)

lemma process_lines_position:
  "process_lines now (h\<lparr>last_position := n\<rparr>) ls = process_lines now h ls"
  by (induction ls) (simp_all add: process_log_line_position)

lemma process_lines_Cons_blank:
  "strip l = [] \<Longrightarrow> process_lines now h (l # ls) = process_lines now h ls"
  by simp

lemma process_lines_Cons_raises:
  "strip l \<noteq> [] \<Longrightarrow> snd (process_log_line now h l) = Raises \<Longrightarrow>
   process_lines now h (l # ls) = (Line l # fst (process_log_line now h l), Raises)"
  by (cases "process_log_line now h l") simp

lemma process_lines_Cons_returns:
  "strip l \<noteq> [] \<Longrightarrow> snd (process_log_line now h l) = Returns \<Longrightarrow>
   process_lines now h (l # ls) =
     (Line l # fst (process_log_line now h l) @ fst (process_lines now h ls),
      snd (process_lines now h ls))"
  by (cases "process_log_line now h l"; cases "process_lines now h ls") simp

lemma process_lines_no_reads: "reads (fst (process_lines now h ls)) = []"
proof (induction ls)
  case Nil
  then show ?case by simp
next
  case (Cons l ls)
  show ?case
  proof (cases "strip l = []")
    case True
    then show ?thesis using Cons.IH by simp
  next
    case False
    then show ?thesis
      using Cons.IH
      by (cases "snd (process_log_line now h l)")
         (simp_all add: process_lines_Cons_returns process_lines_Cons_raises reads_append
            process_log_line_no_reads del: process_lines.simps)
  qed
qed

lemma process_lines_handed:
  "lines_handed (fst (process_lines now h ls)) =
     take (Suc (length (takeWhile (\<lambda>l. snd (process_log_line now h l) = Returns) (nonblank ls))))
          (nonblank ls)"
proof (induction ls)
  case Nil
  then show ?case by (simp add: nonblank_def)
next
  case (Cons l ls)
  show ?case
  proof (cases "strip l = []")
    case True
    then show ?thesis using Cons.IH by (simp add: nonblank_def)
  next
    case False
    show ?thesis
    proof (cases "snd (process_log_line now h l)")
      case Returns
      then show ?thesis
        using False Cons.IH
        by (simp add: process_lines_Cons_returns lines_handed_append process_log_line_no_lines
            nonblank_def del: process_lines.simps)
    next
      case Raises
      then show ?thesis
        using False
        by (simp add: process_lines_Cons_raises process_log_line_no_lines nonblank_def
            del: process_lines.simps)
    qed
  qed
qed

lemma process_lines_returns:
  "(snd (process_lines now h ls) = Returns) =
     (\<forall>l\<in>set (nonblank ls). snd (process_log_line now h l) = Returns)"
proof (induction ls)
  case Nil
  then show ?case by (simp add: nonblank_def)
next
  case (Cons l ls)
  show ?case
  proof (cases "strip l = []")
    case True
    then show ?thesis using Cons.IH by (simp add: nonblank_def)
  next
    case False
    show ?thesis
    proof (cases "snd (process_log_line now h l)")
      case Returns
      then show ?thesis
        using False Cons.IH
        by (simp add: process_lines_Cons_returns nonblank_def del: process_lines.simps)
    next
      case Raises
      then show ?thesis
        using False
        by (simp add: process_lines_Cons_raises nonblank_def del: process_lines.simps)
    qed
  qed
qed

lemma process_lines_handed_all:
  assumes "\<forall>l\<in>set (nonblank ls). snd (process_log_line now h l) = Returns"
  shows "lines_handed (fst (process_lines now h ls)) = nonblank ls"
proof -
  have tw: "takeWhile (\<lambda>l. snd (process_log_line now h l) = Returns) (nonblank ls) = nonblank ls"
    using assms by (simp add: takeWhile_eq_all_conv)
  show ?thesis unfolding process_lines_handed tw by simp
qed

lemma process_lines_alerts:
  "info \<in> set (alerts (fst (process_lines now h ls))) \<Longrightarrow>
   \<exists>l\<in>set (lines_handed (fst (process_lines now h ls))). \<exists>k\<in>set (error_keywords h).
      info = extract_error_info now l k"
proof (induction ls)
  case Nil
  then show ?case by simp
next
  case (Cons l ls)
  show ?case
  proof (cases "strip l = []")
    case True
    then show ?thesis using Cons by simp
  next
    case False
    note nb = this
    show ?thesis
    proof (cases "snd (process_log_line now h l)")
      case Returns
      from Cons.prems have "info \<in> set (alerts (fst (process_log_line now h l)))
          \<or> info \<in> set (alerts (fst (process_lines now h ls)))"
        using nb Returns
        by (simp add: process_lines_Cons_returns alerts_append del: process_lines.simps)
      then show ?thesis
      proof
        assume "info \<in> set (alerts (fst (process_log_line now h l)))"
        then have "\<exists>k\<in>set (error_keywords h). info = extract_error_info now l k"
          using process_log_line_cases [of now h l] by auto
        then show ?thesis
          using nb Returns by (simp add: process_lines_Cons_returns del: process_lines.simps)
      next
        assume "info \<in> set (alerts (fst (process_lines now h ls)))"
        from Cons.IH [OF this] show ?thesis
          using nb Returns
          by (auto simp: process_lines_Cons_returns lines_handed_append simp del: process_lines.simps)
      qed
    next
      case Raises
      from Cons.prems have "info \<in> set (alerts (fst (process_log_line now h l)))"
        using nb Raises by (simp add: process_lines_Cons_raises del: process_lines.simps)
      then have "\<exists>k\<in>set (error_keywords h). info = extract_error_info now l k"
        using process_log_line_cases [of now h l] by auto
      then show ?thesis
        using nb Raises by (simp add: process_lines_Cons_raises del: process_lines.simps)
    qed
  qed
qed

lemma on_modified_ignored:
  "is_directory event \<or> src_path event \<noteq> log_file_path h \<Longrightarrow> on_modified now f event h = (h, [])"
  by (simp add: on_modified_def)

lemma on_modified_accepted:
  assumes "\<not> is_directory event" and "src_path event = log_file_path h"
  shows "on_modified now f event h =
     (if get_file_size f < last_position h
      then (if get_file_size f = 0 then (h\<lparr>last_position := 0\<rparr>, [])
            else read_new_content now f (get_file_size f) (h\<lparr>last_position := 0\<rparr>))
      else if get_file_size f = last_position h then (h, [])
      else read_new_content now f (get_file_size f) h)"
  using assms by (auto simp: on_modified_def Let_def)

lemma strip_Nil: "strip [] = []"
  by (simp add: strip_def)

lemma process_lines_blank_text:
  "strip txt = [] \<Longrightarrow> process_lines now h (split_on LF (strip txt)) = ([], Returns)"
  by (simp add: strip_Nil)

lemma nonblank_split_blank: "strip txt = [] \<Longrightarrow> nonblank (split_on LF (strip txt)) = []"
  by (simp add: nonblank_def strip_Nil)

lemma process_lines_reads_eq: "process_lines now h ls = (evs, r) \<Longrightarrow> reads evs = []"
  using process_lines_no_reads [of now h ls] by simp

lemma read_new_content_state:
  "fst (read_new_content now (Readable content) n h) = h\<lparr>last_position := n\<rparr>"
  by (simp add: read_new_content_def Let_def split: prod.splits outcome.splits)

lemma read_new_content_reads:
  "reads (snd (read_new_content now (Readable content) n h)) =
     [(last_position h, n - last_position h, read_text content (last_position h) n)]"
  by (auto simp: read_new_content_def Let_def reads_append split: prod.splits outcome.splits
      dest: process_lines_reads_eq)

lemma read_new_content_trace:
  "snd (read_new_content now (Readable content) n h) =
     Read (last_position h) (n - last_position h) (read_text content (last_position h) n)
       # fst (process_lines now h (split_on LF (strip (read_text content (last_position h) n))))
       @ (if snd (process_lines now h (split_on LF (strip (read_text content (last_position h) n))))
             = Raises then [Caught] else [])"
proof (cases "strip (read_text content (last_position h) n) = []")
  case True
  then show ?thesis
    by (simp add: read_new_content_def Let_def strip_Nil)
next
  case False
  then show ?thesis
    by (cases "process_lines now h (split_on LF (strip (read_text content (last_position h) n)))")
       (auto simp: read_new_content_def Let_def process_lines_position split: outcome.splits)
qed

lemma read_new_content_lines:
  "lines_handed (snd (read_new_content now (Readable content) n h)) =
     lines_handed (fst (process_lines now h
        (split_on LF (strip (read_text content (last_position h) n)))))"
  by (simp add: read_new_content_trace lines_handed_append)

lemma read_new_content_alerts:
  "alerts (snd (read_new_content now (Readable content) n h)) =
     alerts (fst (process_lines now h
        (split_on LF (strip (read_text content (last_position h) n)))))"
  by (simp add: read_new_content_trace alerts_append)

lemma read_new_content_caught:
  "snd (process_lines now h (split_on LF (strip (read_text content (last_position h) n)))) = Raises
   \<Longrightarrow> last (snd (read_new_content now (Readable content) n h)) = Caught"
  by (simp add: read_new_content_trace)

lemma read_new_content_unreadable:
  "\<forall>c. f \<noteq> Readable c \<Longrightarrow> read_new_content now f n h = (h, [Caught])"
  by (cases f) (simp_all add: read_new_content_def)

lemma on_modified_grown:
  assumes "\<not> is_directory event" and "src_path event = log_file_path h"
    and "last_position h < length content"
  shows "on_modified now (Readable content) event h =
           read_new_content now (Readable content) (length content) h"
  using assms by (simp add: on_modified_accepted get_file_size_def)

lemma read_text_exact:
  "pos \<le> length content \<Longrightarrow>
   read_text content pos (length content)
     = universal_newlines (take (length content - pos) (drop pos content))"
  by (simp add: read_text_whole)

lemma handed_until_raise:
  assumes "\<forall>x\<in>set before. snd (process_log_line now h x) = Returns"
    and "snd (process_log_line now h l) = Raises"
  shows "take (Suc (length (takeWhile (\<lambda>l. snd (process_log_line now h l) = Returns)
                      (before @ l # after)))) (before @ l # after) = before @ [l]"
proof -
  have "takeWhile (\<lambda>l. snd (process_log_line now h l) = Returns) (before @ l # after) = before"
    using assms by (simp add: takeWhile_append2)
  then show ?thesis by simp
qed

lemma on_modified_emptied:
  assumes "\<not> is_directory event" and "src_path event = log_file_path h"
    and "get_file_size f < last_position h" and "get_file_size f = 0"
  shows "on_modified now f event h = (h\<lparr>last_position := 0\<rparr>, [])"
  using assms by (simp add: on_modified_accepted)

lemma on_modified_shrunk:
  assumes "\<not> is_directory event" and "src_path event = log_file_path h"
    and "get_file_size f < last_position h" and "get_file_size f \<noteq> 0"
  shows "on_modified now f event h =
           read_new_content now f (get_file_size f) (h\<lparr>last_position := 0\<rparr>)"
  using assms by (simp add: on_modified_accepted)

lemma read_text_from_start: "read_text content 0 (length content) = universal_newlines content"
  using read_text_whole [of 0 content] by simp

lemma fresh_lines_from_start:
  "fresh_lines content 0 = nonblank (split_on LF (strip (universal_newlines content)))"
  by (simp add: fresh_lines_def)

lemma process_lines_handed_subset:
  "set (lines_handed (fst (process_lines now h ls))) \<subseteq> set ls"
proof -
  have "set (lines_handed (fst (process_lines now h ls))) \<subseteq> set (nonblank ls)"
    unfolding process_lines_handed by (rule set_take_subset)
  also have "\<dots> \<subseteq> set ls" by (simp add: nonblank_def)
  finally show ?thesis .
qed

lemma on_modified_shape:
  "on_modified now f event h = (h, [])
   \<or> on_modified now f event h = (h\<lparr>last_position := 0\<rparr>, [])
   \<or> (\<exists>p. (p = last_position h \<and> last_position h \<le> get_file_size f \<or> p = 0)
          \<and> p < get_file_size f
          \<and> on_modified now f event h
              = read_new_content now f (get_file_size f) (h\<lparr>last_position := p\<rparr>))"
proof (cases "is_directory event \<or> src_path event \<noteq> log_file_path h")
  case True
  then show ?thesis by (simp add: on_modified_ignored)
next
  case False
  then have acc: "\<not> is_directory event" "src_path event = log_file_path h" by simp_all
  show ?thesis
  proof (cases "get_file_size f < last_position h")
    case True
    then show ?thesis
      by (cases "get_file_size f = 0") (simp_all add: on_modified_accepted [OF acc])
  next
    case False
    show ?thesis
    proof (cases "get_file_size f = last_position h")
      case True
      then show ?thesis by (simp add: on_modified_accepted [OF acc])
    next
      case ne: False
      have "h\<lparr>last_position := last_position h\<rparr> = h" by simp
      then show ?thesis
        using False ne by (auto simp: on_modified_accepted [OF acc])
    qed
  qed
qed

lemma read_new_content_keywords:
  "error_keywords (fst (read_new_content now f n h)) = error_keywords h"
  by (cases f) (simp_all add: read_new_content_state read_new_content_unreadable)

lemma on_modified_keywords:
  "error_keywords (fst (on_modified now f event h)) = error_keywords h"
  using on_modified_shape [of now f event h]
  by (auto simp: read_new_content_keywords)

lemma read_new_content_lines_from_read:
  "l \<in> set (lines_handed (snd (read_new_content now f n h))) \<Longrightarrow>
   \<exists>(pos, cnt, t)\<in>set (reads (snd (read_new_content now f n h))). l \<in> set (split_on LF (strip t))"
proof (cases f)
  case (Readable c)
  assume "l \<in> set (lines_handed (snd (read_new_content now f n h)))"
  then have "l \<in> set (split_on LF (strip (read_text c (last_position h) n)))"
    using process_lines_handed_subset unfolding Readable read_new_content_lines by blast
  then show ?thesis
    unfolding Readable read_new_content_reads by simp
qed (simp_all add: read_new_content_unreadable)

lemma read_new_content_alerts_from_lines:
  "info \<in> set (alerts (snd (read_new_content now f n h))) \<Longrightarrow>
   \<exists>l\<in>set (lines_handed (snd (read_new_content now f n h))). \<exists>k\<in>set (error_keywords h).
      info = extract_error_info now l k"
proof (cases f)
  case (Readable c)
  assume "info \<in> set (alerts (snd (read_new_content now f n h)))"
  then show ?thesis
    unfolding Readable read_new_content_alerts read_new_content_lines
    by (rule process_lines_alerts)
qed (simp_all add: read_new_content_unreadable)

lemma on_modified_lines_from_read:
  "l \<in> set (lines_handed (snd (on_modified now f event h))) \<Longrightarrow>
   \<exists>(pos, cnt, t)\<in>set (reads (snd (on_modified now f event h))). l \<in> set (split_on LF (strip t))"
  using on_modified_shape [of now f event h]
  by (auto dest: read_new_content_lines_from_read)

lemma on_modified_alerts_from_lines:
  "info \<in> set (alerts (snd (on_modified now f event h))) \<Longrightarrow>
   \<exists>l\<in>set (lines_handed (snd (on_modified now f event h))). \<exists>k\<in>set (error_keywords h).
      info = extract_error_info now l k"
proof -
  assume a: "info \<in> set (alerts (snd (on_modified now f event h)))"
  from on_modified_shape [of now f event h] a
  obtain p where om: "on_modified now f event h
      = read_new_content now f (get_file_size f) (h\<lparr>last_position := p\<rparr>)"
    by auto
  from a read_new_content_alerts_from_lines [of info now f "get_file_size f" "h\<lparr>last_position := p\<rparr>"]
  show ?thesis unfolding om by simp
qed

lemma on_modified_grow_step:
  assumes "last_position h \<le> get_file_size f"
  shows "last_position h \<le> last_position (fst (on_modified now f event h))
       \<and> last_position (fst (on_modified now f event h)) \<le> get_file_size f
       \<and> (\<forall>(pos, cnt, t)\<in>set (reads (snd (on_modified now f event h))).
            pos = last_position h
            \<and> (\<exists>c. f = Readable c \<and> pos + cnt = length c \<and> t = universal_newlines (drop pos c)))"
proof -
  consider (idle) "on_modified now f event h = (h, [])"
    | (reset) "on_modified now f event h = (h\<lparr>last_position := 0\<rparr>, [])" "last_position h = 0"
    | (rd) "last_position h < get_file_size f"
        "on_modified now f event h = read_new_content now f (get_file_size f) h"
  proof (cases "is_directory event \<or> src_path event \<noteq> log_file_path h")
    case True
    then show ?thesis using idle by (simp add: on_modified_ignored)
  next
    case False
    then have acc: "\<not> is_directory event" "src_path event = log_file_path h" by simp_all
    show ?thesis
    proof (cases "get_file_size f = last_position h")
      case True
      then show ?thesis using idle by (simp add: on_modified_accepted [OF acc])
    next
      case False
      then show ?thesis using rd assms by (simp add: on_modified_accepted [OF acc])
    qed
  qed
  then show ?thesis
  proof cases
    case idle
    then show ?thesis using assms by simp
  next
    case reset
    then show ?thesis by simp
  next
    case rd
    show ?thesis
    proof (cases f)
      case (Readable c)
      have "read_text c (last_position h) (length c) = universal_newlines (drop (last_position h) c)"
        using assms Readable by (intro read_text_whole) (simp add: get_file_size_def)
      then show ?thesis
        using rd assms unfolding Readable
        by (simp add: read_new_content_state read_new_content_reads get_file_size_def)
    next
      case Absent
      then show ?thesis using rd assms by (simp add: read_new_content_unreadable)
    next
      case (Unreadable n)
      then show ?thesis using rd assms by (simp add: read_new_content_unreadable)
    qed
  qed
qed

lemma run_Cons_trace:
  "snd (run ((now, f, event) # rest) h) =
     snd (on_modified now f event h) @ snd (run rest (fst (on_modified now f event h)))"
  by (simp split: prod.splits)

lemma run_keywords: "error_keywords (fst (run evs h)) = error_keywords h"
proof (induction evs arbitrary: h)
  case Nil
  then show ?case by simp
next
  case (Cons ev evs)
  obtain now f event where ev: "ev = (now, f, event)" by (cases ev)
  have "fst (run (ev # evs) h) = fst (run evs (fst (on_modified now f event h)))"
    unfolding ev by (simp split: prod.splits)
  then show ?case using Cons.IH by (simp add: on_modified_keywords)
qed

lemma run_growing:
  "sorted (last_position h # sizes_seen evs) \<Longrightarrow>
   \<forall>(pos, cnt, t)\<in>set (reads (snd (run evs h))).
      last_position h \<le> pos
      \<and> (\<exists>now c event. (now, Readable c, event) \<in> set evs
            \<and> pos + cnt = length c \<and> t = universal_newlines (drop pos c))"
proof (induction evs arbitrary: h)
  case Nil
  then show ?case by simp
next
  case (Cons ev evs)
  obtain now f event where ev: "ev = (now, f, event)" by (cases ev)
  let ?h' = "fst (on_modified now f event h)"
  have le: "last_position h \<le> get_file_size f"
    using Cons.prems by (simp add: ev sizes_seen_def)
  note step = on_modified_grow_step [OF le, of now event]
  have "sorted (last_position ?h' # sizes_seen evs)"
    using Cons.prems step by (auto simp: ev sizes_seen_def)
  from Cons.IH [OF this]
  have rest: "\<forall>(pos, cnt, t)\<in>set (reads (snd (run evs ?h'))).
      last_position h \<le> pos
      \<and> (\<exists>now c event. (now, Readable c, event) \<in> set (ev # evs)
            \<and> pos + cnt = length c \<and> t = universal_newlines (drop pos c))"
    using step by fastforce
  have first: "\<forall>(pos, cnt, t)\<in>set (reads (snd (on_modified now f event h))).
      last_position h \<le> pos
      \<and> (\<exists>now c event. (now, Readable c, event) \<in> set (ev # evs)
            \<and> pos + cnt = length c \<and> t = universal_newlines (drop pos c))"
    using step unfolding ev by fastforce
  show ?case
    unfolding ev run_Cons_trace reads_append
    using first rest unfolding ev by auto
qed

lemma run_lines_from_reads:
  "l \<in> set (lines_handed (snd (run evs h))) \<Longrightarrow>
   \<exists>(pos, cnt, t)\<in>set (reads (snd (run evs h))). l \<in> set (split_on LF (strip t))"
proof (induction evs arbitrary: h)
  case Nil
  then show ?case by simp
next
  case (Cons ev evs)
  obtain now f event where ev: "ev = (now, f, event)" by (cases ev)
  from Cons.prems
  have "l \<in> set (lines_handed (snd (on_modified now f event h)))
      \<or> l \<in> set (lines_handed (snd (run evs (fst (on_modified now f event h)))))"
    unfolding ev run_Cons_trace lines_handed_append by simp
  then show ?case
  proof
    assume "l \<in> set (lines_handed (snd (on_modified now f event h)))"
    from on_modified_lines_from_read [OF this] show ?thesis
      unfolding ev run_Cons_trace reads_append by auto
  next
    assume "l \<in> set (lines_handed (snd (run evs (fst (on_modified now f event h)))))"
    from Cons.IH [OF this] show ?thesis
      unfolding ev run_Cons_trace reads_append by auto
  qed
qed

lemma run_alerts_from_lines:
  "info \<in> set (alerts (snd (run evs h))) \<Longrightarrow>
   \<exists>l\<in>set (lines_handed (snd (run evs h))). \<exists>k\<in>set (error_keywords h). \<exists>now.
      info = extract_error_info now l k"
proof (induction evs arbitrary: h)
  case Nil
  then show ?case by simp
next
  case (Cons ev evs)
  obtain now f event where ev: "ev = (now, f, event)" by (cases ev)
  from Cons.prems
  have "info \<in> set (alerts (snd (on_modified now f event h)))
      \<or> info \<in> set (alerts (snd (run evs (fst (on_modified now f event h)))))"
    unfolding ev run_Cons_trace alerts_append by simp
  then show ?case
  proof
    assume "info \<in> set (alerts (snd (on_modified now f event h)))"
    from on_modified_alerts_from_lines [OF this] show ?thesis
      unfolding ev run_Cons_trace lines_handed_append by auto
  next
    assume "info \<in> set (alerts (snd (run evs (fst (on_modified now f event h)))))"
    from Cons.IH [OF this] show ?thesis
      unfolding ev run_Cons_trace lines_handed_append by (auto simp: on_modified_keywords)
  qed
qed

lemma LogFileHandler_init_fields:
  "LogFileHandler_init re_compile f path keywords cb = Some h \<Longrightarrow>
   last_position h = get_file_size f \<and> error_keywords h = keywords \<and> callback h = cb
   \<and> log_file_path h = path \<and> those (map re_compile keywords) = Some (error_patterns h)"
  by (auto simp: LogFileHandler_init_def split: option.splits)

lemma match_atoms_append:
  "match_atoms (a @ b) s \<Longrightarrow> match_atoms a s \<and> match_atoms b (drop (length a) s)"
  by (induction a s rule: match_atoms.induct) auto

lemma match_atoms_take:
  "match_atoms b s \<Longrightarrow> match_atoms b (take (length b) s) \<and> length (take (length b) s) = length b"
  by (induction b s rule: match_atoms.induct) auto

lemma re_search_group_Some:
  "re_search_group pre grp post s = Some g \<Longrightarrow> match_atoms grp g \<and> length g = length grp"
proof (induction s)
  case Nil
  then show ?case by (cases pre; cases grp) (auto split: if_splits)
next
  case (Cons c cs)
  show ?case
  proof (cases "match_atoms (pre @ grp @ post) (c # cs)")
    case True
    then have g: "g = take (length grp) (drop (length pre) (c # cs))" using Cons.prems by simp
    from True have "match_atoms (grp @ post) (drop (length pre) (c # cs))"
      by (blast dest: match_atoms_append)
    then have "match_atoms grp (drop (length pre) (c # cs))"
      by (blast dest: match_atoms_append)
    from match_atoms_take [OF this] show ?thesis unfolding g by simp
  next
    case False
    then show ?thesis using Cons by simp
  qed
qed

lemma first_timestamp_shaped:
  "first_timestamp timestamp_patterns s = Some g \<Longrightarrow> timestamp_shaped g"
  by (auto simp: timestamp_patterns_def timestamp_shaped_def split: option.splits
      dest: re_search_group_Some)

lemma extract_error_info_timestamp:
  "timestamp (extract_error_info now l k) =
     (case first_timestamp timestamp_patterns l of
        None \<Rightarrow> now_strftime now
      | Some g \<Rightarrow> if g = [] then now_strftime now else g)"
  by (simp add: extract_error_info_def Let_def)

lemma extract_error_info_line: "line (extract_error_info now l k) = strip l"
  by (simp add: extract_error_info_def Let_def)

lemma extract_error_info_keyword: "matched_keyword (extract_error_info now l k) = k"
  by (simp add: extract_error_info_def Let_def)

lemma process_lines_handed_nonblank:
  "x \<in> set (lines_handed (fst (process_lines now h ls))) \<Longrightarrow> strip x \<noteq> []"
proof -
  assume "x \<in> set (lines_handed (fst (process_lines now h ls)))"
  then have "x \<in> set (nonblank ls)"
    unfolding process_lines_handed by (rule in_set_takeD)
  then show ?thesis by (simp add: nonblank_def)
qed

lemma check_patterns_first:
  "i < length ps \<Longrightarrow> fst (ps ! i) l \<Longrightarrow> \<forall>j<i. \<not> fst (ps ! j) l \<Longrightarrow>
   check_patterns now cb l ps =
     (case cb of
        Some f \<Rightarrow> ([Alert (extract_error_info now l (snd (ps ! i)))],
                   f (extract_error_info now l (snd (ps ! i))))
      | None \<Rightarrow> ([], Returns))"
proof (induction ps arbitrary: i)
  case Nil
  then show ?case by simp
next
  case (Cons pk ps)
  obtain p k where pk: "pk = (p, k)" by (cases pk)
  show ?case
  proof (cases i)
    case 0
    then show ?thesis using Cons.prems pk by (cases cb) (simp_all add: Let_def)
  next
    case (Suc n)
    have "\<not> p l" using Cons.prems(3) Suc pk by force
    moreover have "check_patterns now cb l ps =
     (case cb of
        Some f \<Rightarrow> ([Alert (extract_error_info now l (snd (ps ! n)))],
                   f (extract_error_info now l (snd (ps ! n))))
      | None \<Rightarrow> ([], Returns))"
      using Cons.prems Suc by (intro Cons.IH) auto
    ultimately show ?thesis using pk Suc by (cases cb) simp_all
  qed
qed

lemma check_patterns_none:
  "\<forall>i<length ps. \<not> fst (ps ! i) l \<Longrightarrow> check_patterns now cb l ps = ([], Returns)"
proof (induction ps)
  case Nil
  then show ?case by simp
next
  case (Cons pk ps)
  obtain p k where pk: "pk = (p, k)" by (cases pk)
  have "\<not> p l" using Cons.prems pk by force
  moreover have "\<forall>i<length ps. \<not> fst (ps ! i) l" using Cons.prems by force
  ultimately show ?case using Cons.IH pk by simp
qed

lemma process_log_line_at_most_one: "length (fst (process_log_line now h l)) \<le> 1"
  using process_log_line_cases [of now h l] by auto

section \<open>Properties of the rate limiter\<close>

text \<open>
  While every call comes less than the interval after the last grant, every call is
  denied and the limiter does not change.
\<close>

lemma permit_calls_all_denied:
  "\<forall>t\<in>set ts. t - last_notification_time rl < min_interval rl \<Longrightarrow>
   permit_calls ts rl = (replicate (length ts) False, rl)"
  by (induction ts) (simp_all add: should_send_notification_def)

lemma granted_replicate_False: "granted (replicate n False) = 0"
  by (simp add: granted_def)

lemma permit_calls_first_due:
  assumes "t - last_notification_time rl \<ge> min_interval rl"
    and "\<forall>u\<in>set ts. u - t < min_interval rl"
  shows "permit_calls (t # ts) rl =
           (True # replicate (length ts) False, rl\<lparr>last_notification_time := t\<rparr>)"
proof -
  have "permit_calls ts (rl\<lparr>last_notification_time := t\<rparr>)
          = (replicate (length ts) False, rl\<lparr>last_notification_time := t\<rparr>)"
    using assms(2) by (intro permit_calls_all_denied) simp
  then show ?thesis using assms(1) by (simp add: should_send_notification_def)
qed

lemma permit_calls_at_most_one:
  "\<forall>t\<in>set ts. \<forall>u\<in>set ts. t - u < min_interval rl \<Longrightarrow> granted (fst (permit_calls ts rl)) \<le> 1"
proof (induction ts arbitrary: rl)
  case Nil
  then show ?case by (simp add: granted_def)
next
  case (Cons t ts)
  show ?case
  proof (cases "t - last_notification_time rl \<ge> min_interval rl")
    case True
    have "\<forall>u\<in>set ts. u - t < min_interval rl" using Cons.prems by simp
    from permit_calls_first_due [OF True this] show ?thesis
      by (simp add: granted_def)
  next
    case False
    then have "should_send_notification t rl = (False, rl)"
      by (simp add: should_send_notification_def)
    moreover have "granted (fst (permit_calls ts rl)) \<le> 1"
      using Cons.prems by (intro Cons.IH) simp
    ultimately show ?thesis by (simp add: granted_def Let_def)
  qed
qed

text \<open>
  Claim C1, as amended. Let \<open>S = min_interval\<close> and let \<open>ts\<close> be the clock readings of
  \<open>N \<ge> 1\<close> successive calls of \<open>should_send_notification\<close>, any two of them less
  than \<open>S\<close> apart. Then at most one call returns true. When the first call comes at least
  \<open>S\<close> after \<open>last_notification_time\<close> (so on a fresh limiter, where that time is 0,
  once the clock reads at least \<open>S\<close>), exactly one call returns true, namely the first,
  \<open>last_notification_time\<close> becomes its reading, and a further call at least \<open>S\<close> after
  it returns true again. A call that returns true has found the interval elapsed and
  stores the current time; a call that returns false leaves the limiter unchanged.
\<close>

theorem rate_limit_window:
  assumes "ts \<noteq> []"
    and "\<forall>t\<in>set ts. \<forall>u\<in>set ts. t - u < min_interval rl"
  shows "granted (fst (permit_calls ts rl)) \<le> 1
       \<and> (hd ts - last_notification_time rl \<ge> min_interval rl \<longrightarrow>
            fst (permit_calls ts rl) = True # replicate (length ts - 1) False
          \<and> granted (fst (permit_calls ts rl)) = 1
          \<and> last_notification_time (snd (permit_calls ts rl)) = hd ts
          \<and> (\<forall>t'. t' - hd ts \<ge> min_interval rl \<longrightarrow>
                fst (should_send_notification t' (snd (permit_calls ts rl)))))
       \<and> (\<forall>now. fst (should_send_notification now rl) \<longrightarrow>
              now - last_notification_time rl \<ge> min_interval rl
            \<and> snd (should_send_notification now rl) = rl\<lparr>last_notification_time := now\<rparr>)
       \<and> (\<forall>now. \<not> fst (should_send_notification now rl) \<longrightarrow>
              now - last_notification_time rl < min_interval rl
            \<and> snd (should_send_notification now rl) = rl)"
proof (intro conjI)
  show "granted (fst (permit_calls ts rl)) \<le> 1"
    using assms(2) by (rule permit_calls_at_most_one)
next
  show "hd ts - last_notification_time rl \<ge> min_interval rl \<longrightarrow>
            fst (permit_calls ts rl) = True # replicate (length ts - 1) False
          \<and> granted (fst (permit_calls ts rl)) = 1
          \<and> last_notification_time (snd (permit_calls ts rl)) = hd ts
          \<and> (\<forall>t'. t' - hd ts \<ge> min_interval rl \<longrightarrow>
                fst (should_send_notification t' (snd (permit_calls ts rl))))"
  proof
    assume due: "hd ts - last_notification_time rl \<ge> min_interval rl"
    obtain t us where ts: "ts = t # us" using assms(1) by (cases ts) auto
    have "\<forall>u\<in>set us. u - t < min_interval rl" using assms(2) ts by simp
    from permit_calls_first_due [OF _ this] due ts
    have "permit_calls ts rl = (True # replicate (length us) False, rl\<lparr>last_notification_time := t\<rparr>)"
      by simp
    then show "fst (permit_calls ts rl) = True # replicate (length ts - 1) False
          \<and> granted (fst (permit_calls ts rl)) = 1
          \<and> last_notification_time (snd (permit_calls ts rl)) = hd ts
          \<and> (\<forall>t'. t' - hd ts \<ge> min_interval rl \<longrightarrow>
                fst (should_send_notification t' (snd (permit_calls ts rl))))"
      using ts by (simp add: granted_def should_send_notification_def)
  qed
next
  show "\<forall>now. fst (should_send_notification now rl) \<longrightarrow>
              now - last_notification_time rl \<ge> min_interval rl
            \<and> snd (should_send_notification now rl) = rl\<lparr>last_notification_time := now\<rparr>"
    by (simp add: should_send_notification_def)
next
  show "\<forall>now. \<not> fst (should_send_notification now rl) \<longrightarrow>
              now - last_notification_time rl < min_interval rl
            \<and> snd (should_send_notification now rl) = rl"
    by (simp add: should_send_notification_def)
qed

text \<open>
  Three calls within 299 seconds on a fresh limiter of 300 seconds: one grant; the call
  300 seconds after the granted one is granted.
\<close>

theorem rate_limit_window_witness:
  "granted (fst (permit_calls [1700000000, 1700000100, 1700000299] (RateLimiter_init 300))) = 1
   \<and> fst (should_send_notification 1700000300
        (snd (permit_calls [1700000000, 1700000100, 1700000299] (RateLimiter_init 300))))"
  using rate_limit_window [of "[1700000000, 1700000100, 1700000299]" "RateLimiter_init 300"]
  by (simp add: RateLimiter_init_def granted_def should_send_notification_def)

text \<open>
  Claim C1 as stated ("exactly one call returns true" for every such sequence) fails
  for the calls that follow a grant: a fresh limiter of 300 seconds grants the call at
  1700000000; the next two calls, 100 and 200 seconds later, lie in a window of 100
  seconds and neither returns true.
\<close>

theorem rate_limit_exactly_one_counterexample:
  "should_send_notification 1700000000 (RateLimiter_init 300)
     = (True, \<lparr>min_interval = 300, last_notification_time = 1700000000\<rparr>)
   \<and> fst (permit_calls [1700000100, 1700000200]
            \<lparr>min_interval = 300, last_notification_time = 1700000000\<rparr>) = [False, False]
   \<and> granted (fst (permit_calls [1700000100, 1700000200]
            \<lparr>min_interval = 300, last_notification_time = 1700000000\<rparr>)) \<noteq> 1"
  by (simp add: should_send_notification_def RateLimiter_init_def granted_def)

section \<open>Properties of the notification manager\<close>

text \<open>The two outcomes of \<open>send_all_alerts\<close>, by the answer of the rate limiter.\<close>

lemma send_all_alerts_granted:
  assumes "current_time - last_notification_time (rate_limiter nm) \<ge> min_interval (rate_limiter nm)"
  shows "send_all_alerts current_time nm info =
    (\<lparr>email_sent = (case email_notifier nm of Some n \<Rightarrow> email_send_alert n info | None \<Rightarrow> False),
      slack_sent = (case slack_notifier nm of Some n \<Rightarrow> slack_send_alert n info | None \<Rightarrow> False),
      any_sent = ((case email_notifier nm of Some n \<Rightarrow> email_send_alert n info | None \<Rightarrow> False)
                \<or> (case slack_notifier nm of Some n \<Rightarrow> slack_send_alert n info | None \<Rightarrow> False))\<rparr>,
     (case email_notifier nm of Some n \<Rightarrow> [Email] | None \<Rightarrow> [])
       @ (case slack_notifier nm of Some n \<Rightarrow> [Slack] | None \<Rightarrow> []),
     nm\<lparr>rate_limiter := (rate_limiter nm)\<lparr>last_notification_time := current_time\<rparr>\<rparr>)"
  using assms
  by (simp add: send_all_alerts_def should_send_notification_def send_email_alert_def
      send_slack_alert_def split: option.splits)

lemma send_all_alerts_limited:
  assumes "current_time - last_notification_time (rate_limiter nm) < min_interval (rate_limiter nm)"
  shows "send_all_alerts current_time nm info = (no_results, [], nm)"
  using assms
  by (simp add: send_all_alerts_def should_send_notification_def no_results_def)

text \<open>
  Claim C7. When the rate limiter grants the permit, \<open>send_all_alerts\<close> calls
  \<open>send_alert\<close> of every configured notifier, the e-mail one first and the Slack one
  after it whatever the first returned; a notifier whose transport raises yields
  \<open>False\<close>; the result holds one boolean per notifier and \<open>any_sent\<close> is their
  disjunction. With both notifiers configured, one always raising and the other
  delivering, both are attempted and \<open>any_sent\<close> is true.
\<close>

theorem send_all_alerts_attempts_every_sink:
  assumes "current_time - last_notification_time (rate_limiter nm) \<ge> min_interval (rate_limiter nm)"
  shows "fst (snd (send_all_alerts current_time nm info)) =
           (case email_notifier nm of Some n \<Rightarrow> [Email] | None \<Rightarrow> [])
             @ (case slack_notifier nm of Some n \<Rightarrow> [Slack] | None \<Rightarrow> [])
       \<and> email_sent (fst (send_all_alerts current_time nm info)) =
           (case email_notifier nm of Some n \<Rightarrow> n info = Delivered | None \<Rightarrow> False)
       \<and> slack_sent (fst (send_all_alerts current_time nm info)) =
           (case slack_notifier nm of Some n \<Rightarrow> n info = Delivered | None \<Rightarrow> False)
       \<and> any_sent (fst (send_all_alerts current_time nm info)) =
           (email_sent (fst (send_all_alerts current_time nm info))
             \<or> slack_sent (fst (send_all_alerts current_time nm info)))
       \<and> (\<forall>e s. email_notifier nm = Some e \<and> slack_notifier nm = Some s
             \<and> ((\<forall>i. e i = Raised) \<and> s info = Delivered \<or> e info = Delivered \<and> (\<forall>i. s i = Raised))
             \<longrightarrow> fst (snd (send_all_alerts current_time nm info)) = [Email, Slack]
               \<and> any_sent (fst (send_all_alerts current_time nm info)))"
  unfolding send_all_alerts_granted [OF assms]
  by (auto simp: email_send_alert_def slack_send_alert_def split: option.splits delivery.splits)

text \<open>An e-mail notifier that always raises and a Slack notifier that delivers.\<close>

theorem send_all_alerts_attempts_every_sink_witness:
  "fst (send_all_alerts 1700000000
     \<lparr>rate_limiter = RateLimiter_init 300, email_notifier = Some (\<lambda>i. Raised),
      slack_notifier = Some (\<lambda>i. Delivered)\<rparr> sample_info)
    = \<lparr>email_sent = False, slack_sent = True, any_sent = True\<rparr>
   \<and> fst (snd (send_all_alerts 1700000000
     \<lparr>rate_limiter = RateLimiter_init 300, email_notifier = Some (\<lambda>i. Raised),
      slack_notifier = Some (\<lambda>i. Delivered)\<rparr> sample_info)) = [Email, Slack]"
  using send_all_alerts_attempts_every_sink [of
     "\<lparr>rate_limiter = RateLimiter_init 300, email_notifier = Some (\<lambda>i. Raised),
      slack_notifier = Some (\<lambda>i. Delivered)\<rparr>" 1700000000 sample_info]
  by (simp add: RateLimiter_init_def)

text \<open>
  Claim C10. When the interval has elapsed, \<open>send_all_alerts\<close> stores the current time
  in the rate limiter whatever the notifiers do: also when every configured notifier
  fails or none is configured, where the result is all false. Every call that follows
  within the interval is then refused: no notifier is attempted, the result is all false
  and the limiter keeps the stored time.
\<close>

theorem permit_consumed_without_delivery:
  assumes "current_time - last_notification_time (rate_limiter nm) \<ge> min_interval (rate_limiter nm)"
  shows "last_notification_time (rate_limiter (snd (snd (send_all_alerts current_time nm info))))
           = current_time
       \<and> ((\<forall>n. email_notifier nm = Some n \<longrightarrow> n info = Raised)
            \<and> (\<forall>n. slack_notifier nm = Some n \<longrightarrow> n info = Raised)
          \<longrightarrow> fst (send_all_alerts current_time nm info) = no_results)
       \<and> (\<forall>t info'. t - current_time < min_interval (rate_limiter nm) \<longrightarrow>
            send_all_alerts t (snd (snd (send_all_alerts current_time nm info))) info'
              = (no_results, [], snd (snd (send_all_alerts current_time nm info))))"
proof (intro conjI allI impI)
  show "last_notification_time (rate_limiter (snd (snd (send_all_alerts current_time nm info))))
           = current_time"
    by (simp add: send_all_alerts_granted [OF assms])
next
  assume "(\<forall>n. email_notifier nm = Some n \<longrightarrow> n info = Raised)
            \<and> (\<forall>n. slack_notifier nm = Some n \<longrightarrow> n info = Raised)"
  then show "fst (send_all_alerts current_time nm info) = no_results"
    by (auto simp: send_all_alerts_granted [OF assms] no_results_def email_send_alert_def
        slack_send_alert_def split: option.splits)
next
  fix t info'
  assume "t - current_time < min_interval (rate_limiter nm)"
  then show "send_all_alerts t (snd (snd (send_all_alerts current_time nm info))) info'
              = (no_results, [], snd (snd (send_all_alerts current_time nm info)))"
    by (intro send_all_alerts_limited) (simp add: send_all_alerts_granted [OF assms])
qed

text \<open>
  One notifier, always failing: nothing is delivered at 1700000000, and the call 299
  seconds later attempts nothing.
\<close>

theorem permit_consumed_without_delivery_witness:
  "fst (send_all_alerts 1700000000
      \<lparr>rate_limiter = RateLimiter_init 300, email_notifier = Some (\<lambda>i. Raised),
       slack_notifier = None\<rparr> sample_info) = no_results
   \<and> last_notification_time (rate_limiter (snd (snd (send_all_alerts 1700000000
      \<lparr>rate_limiter = RateLimiter_init 300, email_notifier = Some (\<lambda>i. Raised),
       slack_notifier = None\<rparr> sample_info)))) = 1700000000
   \<and> fst (snd (send_all_alerts 1700000299 (snd (snd (send_all_alerts 1700000000
      \<lparr>rate_limiter = RateLimiter_init 300, email_notifier = Some (\<lambda>i. Raised),
       slack_notifier = None\<rparr> sample_info))) sample_info)) = []"
  using permit_consumed_without_delivery [of
      "\<lparr>rate_limiter = RateLimiter_init 300, email_notifier = Some (\<lambda>i. Raised),
       slack_notifier = None\<rparr>" 1700000000 sample_info]
  by (simp add: RateLimiter_init_def)

section \<open>Properties of the watcher\<close>

text \<open>
  Claim C2, as amended. In every call of \<open>on_modified\<close> for the watched file that finds
  the file smaller than \<open>last_position\<close>, the offset is reset to 0 in that call and the
  read, in this call or (when the file is empty, absent or unreadable now) the next one,
  starts at offset 0 and covers the whole file: exactly the bytes present after the
  truncation are read, none is lost, and their lines are handed on as for any read (all
  the lines that are not blank, when no callback raises). Nothing is said of bytes that
  were emitted before: what survives of them is read and emitted again.
\<close>

theorem truncation_rereads_from_start:
  assumes "\<not> is_directory event" and "src_path event = log_file_path h"
    and "get_file_size f < last_position h"
  shows "last_position (fst (on_modified now f event h))
           = (case f of Readable c \<Rightarrow> length c | Unreadable n \<Rightarrow> 0 | Absent \<Rightarrow> 0)
       \<and> reads (snd (on_modified now f event h))
           = (case f of
                Readable c \<Rightarrow> if c = [] then [] else [(0, length c, universal_newlines c)]
              | Unreadable n \<Rightarrow> []
              | Absent \<Rightarrow> [])
       \<and> (\<forall>c. f = Readable c \<longrightarrow>
             lines_handed (snd (on_modified now f event h)) =
               take (Suc (length (takeWhile (\<lambda>l. snd (process_log_line now h l) = Returns)
                                    (fresh_lines c 0))))
                    (fresh_lines c 0)
           \<and> ((\<forall>l\<in>set (fresh_lines c 0). snd (process_log_line now h l) = Returns)
                \<longrightarrow> lines_handed (snd (on_modified now f event h)) = fresh_lines c 0))
       \<and> (\<forall>now' c'. last_position (fst (on_modified now f event h)) = 0 \<and> c' \<noteq> [] \<longrightarrow>
             reads (snd (on_modified now' (Readable c') event (fst (on_modified now f event h))))
               = [(0, length c', universal_newlines c')])"
proof -
  have path: "log_file_path (fst (on_modified now f event h)) = log_file_path h"
  proof (cases "get_file_size f = 0")
    case True
    then show ?thesis by (simp add: on_modified_emptied [OF assms])
  next
    case False
    show ?thesis
      unfolding on_modified_shrunk [OF assms False]
      by (cases f) (simp_all add: read_new_content_state read_new_content_unreadable)
  qed
  have 1: "last_position (fst (on_modified now f event h))
           = (case f of Readable c \<Rightarrow> length c | Unreadable n \<Rightarrow> 0 | Absent \<Rightarrow> 0)"
  proof (cases "get_file_size f = 0")
    case True
    show ?thesis
      unfolding on_modified_emptied [OF assms True]
      using True by (cases f) (simp_all add: get_file_size_def)
  next
    case False
    show ?thesis
      unfolding on_modified_shrunk [OF assms False]
      by (cases f) (simp_all add: read_new_content_state read_new_content_unreadable
          get_file_size_def)
  qed
  have 2: "reads (snd (on_modified now f event h))
           = (case f of
                Readable c \<Rightarrow> if c = [] then [] else [(0, length c, universal_newlines c)]
              | Unreadable n \<Rightarrow> []
              | Absent \<Rightarrow> [])"
  proof (cases "get_file_size f = 0")
    case True
    show ?thesis
      unfolding on_modified_emptied [OF assms True]
      using True by (cases f) (simp_all add: get_file_size_def)
  next
    case False
    show ?thesis
      unfolding on_modified_shrunk [OF assms False]
      using False
      by (cases f) (auto simp: read_new_content_reads read_new_content_unreadable
          get_file_size_def read_text_from_start)
  qed
  have 3: "\<forall>c. f = Readable c \<longrightarrow>
             lines_handed (snd (on_modified now f event h)) =
               take (Suc (length (takeWhile (\<lambda>l. snd (process_log_line now h l) = Returns)
                                    (fresh_lines c 0))))
                    (fresh_lines c 0)
           \<and> ((\<forall>l\<in>set (fresh_lines c 0). snd (process_log_line now h l) = Returns)
                \<longrightarrow> lines_handed (snd (on_modified now f event h)) = fresh_lines c 0)"
  proof (intro allI impI)
    fix c
    assume f: "f = Readable c"
    have handed: "lines_handed (snd (on_modified now f event h)) =
        lines_handed (fst (process_lines now h (split_on LF (strip (universal_newlines c)))))"
    proof (cases "c = []")
      case True
      then have z: "get_file_size f = 0" using f by (simp add: get_file_size_def)
      show ?thesis
        unfolding on_modified_emptied [OF assms z]
        using True by (simp add: strip_Nil)
    next
      case False
      then have nz: "get_file_size f \<noteq> 0" using f by (simp add: get_file_size_def)
      show ?thesis
        unfolding on_modified_shrunk [OF assms nz]
        using f
        by (simp add: get_file_size_def read_new_content_lines read_text_from_start
            process_lines_position)
    qed
    show "lines_handed (snd (on_modified now f event h)) =
               take (Suc (length (takeWhile (\<lambda>l. snd (process_log_line now h l) = Returns)
                                    (fresh_lines c 0))))
                    (fresh_lines c 0)
           \<and> ((\<forall>l\<in>set (fresh_lines c 0). snd (process_log_line now h l) = Returns)
                \<longrightarrow> lines_handed (snd (on_modified now f event h)) = fresh_lines c 0)"
      unfolding handed fresh_lines_from_start
      using process_lines_handed [of now h "split_on LF (strip (universal_newlines c))"]
        process_lines_handed_all [of "split_on LF (strip (universal_newlines c))" now h]
      by blast
  qed
  have 4: "\<forall>now' c'. last_position (fst (on_modified now f event h)) = 0 \<and> c' \<noteq> [] \<longrightarrow>
             reads (snd (on_modified now' (Readable c') event (fst (on_modified now f event h))))
               = [(0, length c', universal_newlines c')]"
  proof (intro allI impI)
    fix now' c'
    assume a: "last_position (fst (on_modified now f event h)) = 0 \<and> c' \<noteq> ([]::string)"
    have "on_modified now' (Readable c') event (fst (on_modified now f event h))
            = read_new_content now' (Readable c') (length c') (fst (on_modified now f event h))"
      using a assms(1,2) path by (intro on_modified_grown) simp_all
    then show "reads (snd (on_modified now' (Readable c') event (fst (on_modified now f event h))))
               = [(0, length c', universal_newlines c')]"
      using a by (simp add: read_new_content_reads read_text_from_start)
  qed
  from 1 2 3 4 show ?thesis by blast
qed

text \<open>The offset is 16 and the file now holds one line of 8 bytes.\<close>

theorem truncation_rereads_from_start_witness:
  "\<not> is_directory app_log_event
   \<and> src_path app_log_event = log_file_path (error_watcher returning 16)
   \<and> get_file_size (Readable line_b) < last_position (error_watcher returning 16)
   \<and> last_position (fst (on_modified noon (Readable line_b) app_log_event
                            (error_watcher returning 16))) = 8
   \<and> reads (snd (on_modified noon (Readable line_b) app_log_event (error_watcher returning 16)))
       = [(0, 8, line_b)]
   \<and> lines_handed (snd (on_modified noon (Readable line_b) app_log_event
                          (error_watcher returning 16))) = [''ERROR b'']"
proof -
  have h1: "\<not> is_directory app_log_event" by code_simp
  have h2: "src_path app_log_event = log_file_path (error_watcher returning 16)" by code_simp
  have h3: "get_file_size (Readable line_b) < last_position (error_watcher returning 16)"
    by code_simp
  have v1: "length line_b = 8" by code_simp
  have v2: "universal_newlines line_b = line_b" by code_simp
  have v3: "fresh_lines line_b 0 = [''ERROR b'']" by code_simp
  have v4: "line_b \<noteq> []" by code_simp
  have ok: "\<forall>l\<in>set (fresh_lines line_b 0).
              snd (process_log_line noon (error_watcher returning 16) l) = Returns"
    by code_simp
  from truncation_rereads_from_start [OF h1 h2 h3, of noon] ok
  show ?thesis using h1 h2 h3 by (simp add: v1 v2 v3 v4)
qed

text \<open>
  Claim C2 as stated ("no replay of pre-truncation bytes already emitted") fails when
  the truncation keeps a prefix: two lines are appended and emitted, the file is cut
  back to the first of them, and that line is emitted a second time.
\<close>

theorem truncation_replay_counterexample:
  "lines_handed (snd (run [(noon, Readable (line_a @ line_b), app_log_event)]
                        (error_watcher returning 0)))
     = [''ERROR a'', ''ERROR b'']
   \<and> last_position (fst (run [(noon, Readable (line_a @ line_b), app_log_event)]
                        (error_watcher returning 0))) = 16
   \<and> get_file_size (Readable line_a) = 8
   \<and> lines_handed (snd (run [(noon, Readable (line_a @ line_b), app_log_event),
                             (noon, Readable line_a, app_log_event)]
                        (error_watcher returning 0)))
     = [''ERROR a'', ''ERROR b'', ''ERROR a'']"
  by code_simp

text \<open>
  Claim C3, as amended. When the processing of a line raises (the callback throws), the
  exception is caught by the handler around the whole read: the lines before it and
  the line itself have been handed on, the lines after it in the same batch never are,
  no callback is called for them, the offset has already moved past the whole batch,
  \<open>on_modified\<close> returns, and the next change event reads what was appended since.
\<close>

theorem failure_ends_batch:
  assumes "\<not> is_directory event" and "src_path event = log_file_path h"
    and "last_position h < length content"
    and "fresh_lines content (last_position h) = before @ l # after"
    and "\<forall>x\<in>set before. snd (process_log_line now h x) = Returns"
    and "snd (process_log_line now h l) = Raises"
  shows "lines_handed (snd (on_modified now (Readable content) event h)) = before @ [l]
       \<and> (\<forall>info\<in>set (alerts (snd (on_modified now (Readable content) event h))).
            \<exists>x\<in>set (before @ [l]). \<exists>k\<in>set (error_keywords h). info = extract_error_info now x k)
       \<and> last (snd (on_modified now (Readable content) event h)) = Caught
       \<and> fst (on_modified now (Readable content) event h) = h\<lparr>last_position := length content\<rparr>
       \<and> (\<forall>now' more. more \<noteq> [] \<longrightarrow>
            reads (snd (on_modified now' (Readable (content @ more)) event
                          (fst (on_modified now (Readable content) event h))))
              = [(length content, length more, universal_newlines more)])"
proof -
  have le: "last_position h \<le> length content" using assms(3) by simp
  note om = on_modified_grown [OF assms(1-3)]
  have rt: "read_text content (last_position h) (length content)
               = universal_newlines (drop (last_position h) content)"
    using le by (rule read_text_whole)
  let ?ls = "split_on LF (strip (universal_newlines (drop (last_position h) content)))"
  have nb: "nonblank ?ls = before @ l # after"
    using assms(4) by (simp add: fresh_lines_def)
  have handed: "lines_handed (fst (process_lines now h ?ls)) = before @ [l]"
    unfolding process_lines_handed nb by (rule handed_until_raise [OF assms(5,6)])
  have 1: "lines_handed (snd (on_modified now (Readable content) event h)) = before @ [l]"
    by (simp add: om read_new_content_lines rt handed)
  have 2: "\<forall>info\<in>set (alerts (snd (on_modified now (Readable content) event h))).
            \<exists>x\<in>set (before @ [l]). \<exists>k\<in>set (error_keywords h). info = extract_error_info now x k"
  proof
    fix info
    assume "info \<in> set (alerts (snd (on_modified now (Readable content) event h)))"
    then have "info \<in> set (alerts (fst (process_lines now h ?ls)))"
      by (simp add: om read_new_content_alerts rt)
    from process_lines_alerts [OF this]
    show "\<exists>x\<in>set (before @ [l]). \<exists>k\<in>set (error_keywords h). info = extract_error_info now x k"
      unfolding handed .
  qed
  have "l \<in> set (nonblank ?ls)" using nb by simp
  then have "snd (process_lines now h ?ls) \<noteq> Returns"
    using assms(6) unfolding process_lines_returns by force
  then have "snd (process_lines now h ?ls) = Raises"
    by (cases "snd (process_lines now h ?ls)") simp_all
  then have 3: "last (snd (on_modified now (Readable content) event h)) = Caught"
    by (simp add: om read_new_content_caught rt)
  have 4: "fst (on_modified now (Readable content) event h) = h\<lparr>last_position := length content\<rparr>"
    by (simp add: om read_new_content_state)
  have 5: "\<forall>now' more. more \<noteq> [] \<longrightarrow>
            reads (snd (on_modified now' (Readable (content @ more)) event
                          (fst (on_modified now (Readable content) event h))))
              = [(length content, length more, universal_newlines more)]"
  proof (intro allI impI)
    fix now' more
    assume "more \<noteq> ([]::string)"
    then have "on_modified now' (Readable (content @ more)) event (h\<lparr>last_position := length content\<rparr>)
        = read_new_content now' (Readable (content @ more)) (length (content @ more))
            (h\<lparr>last_position := length content\<rparr>)"
      using assms(1,2) by (intro on_modified_grown) simp_all
    then show "reads (snd (on_modified now' (Readable (content @ more)) event
                          (fst (on_modified now (Readable content) event h))))
              = [(length content, length more, universal_newlines more)]"
      unfolding 4
      by (simp add: read_new_content_reads read_text_def length_universal_newlines)
  qed
  from 1 2 3 4 5 show ?thesis by blast
qed

text \<open>Three lines appended together; the callback raises on the second.\<close>

theorem failure_ends_batch_witness:
  "\<not> is_directory app_log_event
   \<and> src_path app_log_event = log_file_path (error_watcher (raising_on ''ERROR a'') 0)
   \<and> last_position (error_watcher (raising_on ''ERROR a'') 0) < length (line_c @ line_a @ line_b)
   \<and> fresh_lines (line_c @ line_a @ line_b) (last_position (error_watcher (raising_on ''ERROR a'') 0))
       = [''login ok''] @ ''ERROR a'' # [''ERROR b'']
   \<and> snd (process_log_line noon (error_watcher (raising_on ''ERROR a'') 0) ''login ok'') = Returns
   \<and> snd (process_log_line noon (error_watcher (raising_on ''ERROR a'') 0) ''ERROR a'') = Raises
   \<and> lines_handed (snd (on_modified noon (Readable (line_c @ line_a @ line_b)) app_log_event
                          (error_watcher (raising_on ''ERROR a'') 0)))
       = [''login ok'', ''ERROR a'']
   \<and> last (snd (on_modified noon (Readable (line_c @ line_a @ line_b)) app_log_event
                          (error_watcher (raising_on ''ERROR a'') 0))) = Caught
   \<and> reads (snd (on_modified noon (Readable ((line_c @ line_a @ line_b) @ line_b)) app_log_event
               (fst (on_modified noon (Readable (line_c @ line_a @ line_b)) app_log_event
                          (error_watcher (raising_on ''ERROR a'') 0)))))
       = [(25, 8, line_b)]"
proof -
  let ?h = "error_watcher (raising_on ''ERROR a'') 0"
  let ?c = "line_c @ line_a @ line_b"
  have h1: "\<not> is_directory app_log_event" by code_simp
  have h2: "src_path app_log_event = log_file_path ?h" by code_simp
  have h3: "last_position ?h < length ?c" by code_simp
  have h4: "fresh_lines ?c (last_position ?h) = [''login ok''] @ ''ERROR a'' # [''ERROR b'']"
    by code_simp
  have h5: "\<forall>x\<in>set [''login ok'']. snd (process_log_line noon ?h x) = Returns" by code_simp
  have h6: "snd (process_log_line noon ?h ''ERROR a'') = Raises" by code_simp
  have v1: "length line_c = 9" "length line_a = 8" by code_simp+
  have v2: "length line_b = 8" by code_simp
  have v3: "universal_newlines line_b = line_b" by code_simp
  have v4: "line_b \<noteq> []" by code_simp
  from failure_ends_batch [OF h1 h2 h3 h4 h5 h6]
  have "lines_handed (snd (on_modified noon (Readable ?c) app_log_event ?h))
          = [''login ok''] @ [''ERROR a'']"
    and "last (snd (on_modified noon (Readable ?c) app_log_event ?h)) = Caught"
    and "reads (snd (on_modified noon (Readable (?c @ line_b)) app_log_event
               (fst (on_modified noon (Readable ?c) app_log_event ?h))))
       = [(length ?c, length line_b, universal_newlines line_b)]"
    using v4 by blast+
  then show ?thesis using h1 h2 h3 h4 h5 h6 by (simp add: v1 v2 v3)
qed

text \<open>
  Claim C3 as stated ("only that single offending line is skipped ... processing
  continues with the next line of the same batch") fails: of two matching lines
  appended together, the callback raises on the first and would return on the second;
  the second is never handed on, and the offset is past it.
\<close>

theorem failure_skips_rest_counterexample:
  "fresh_lines (line_a @ line_b) 0 = [''ERROR a'', ''ERROR b'']
   \<and> snd (process_log_line noon (error_watcher (raising_on ''ERROR a'') 0) ''ERROR a'') = Raises
   \<and> snd (process_log_line noon (error_watcher (raising_on ''ERROR a'') 0) ''ERROR b'') = Returns
   \<and> lines_handed (snd (on_modified noon (Readable (line_a @ line_b)) app_log_event
                          (error_watcher (raising_on ''ERROR a'') 0))) = [''ERROR a'']
   \<and> map line (alerts (snd (on_modified noon (Readable (line_a @ line_b)) app_log_event
                          (error_watcher (raising_on ''ERROR a'') 0)))) = [''ERROR a'']
   \<and> last_position (fst (on_modified noon (Readable (line_a @ line_b)) app_log_event
                          (error_watcher (raising_on ''ERROR a'') 0))) = 16"
  by code_simp

text \<open>
  Claim C4, as amended. For every line the timestamp of the extractor's record either has
  the form \<open>YYYY-MM-DD HH:MM:SS\<close>, digits in the numeric places (they are not checked
  to be a date of the calendar or a time of day), or is the current time; the \<open>line\<close>
  field is non-empty whenever the line has a character that is not white space, and so
  in every record that \<open>_read_new_content\<close> hands to the callback.
\<close>

theorem extracted_timestamp_shape:
  "(timestamp_shaped (timestamp (extract_error_info now l k))
      \<or> timestamp (extract_error_info now l k) = now_strftime now)
   \<and> (strip l \<noteq> [] \<longrightarrow> line (extract_error_info now l k) \<noteq> [])
   \<and> (\<forall>info\<in>set (alerts (fst (process_lines now h ls))). line info \<noteq> [])"
proof (intro conjI)
  show "timestamp_shaped (timestamp (extract_error_info now l k))
      \<or> timestamp (extract_error_info now l k) = now_strftime now"
    unfolding extract_error_info_timestamp
    by (auto split: option.splits dest: first_timestamp_shaped)
next
  show "strip l \<noteq> [] \<longrightarrow> line (extract_error_info now l k) \<noteq> []"
    by (simp add: extract_error_info_line)
next
  show "\<forall>info\<in>set (alerts (fst (process_lines now h ls))). line info \<noteq> []"
  proof
    fix info
    assume "info \<in> set (alerts (fst (process_lines now h ls)))"
    from process_lines_alerts [OF this]
    obtain x k' where "x \<in> set (lines_handed (fst (process_lines now h ls)))"
      and "info = extract_error_info now x k'" by blast
    then show "line info \<noteq> []"
      using process_lines_handed_nonblank by (simp add: extract_error_info_line)
  qed
qed

text \<open>The same line, handed on after a blank one.\<close>

theorem extracted_timestamp_shape_witness:
  "strip ''2024-13-45 99:99:99 ERROR disk'' \<noteq> []
   \<and> timestamp_shaped (timestamp (extract_error_info noon ''2024-13-45 99:99:99 ERROR disk'' ''ERROR''))
   \<and> line (extract_error_info noon ''2024-13-45 99:99:99 ERROR disk'' ''ERROR'') \<noteq> []
   \<and> map line (alerts (fst (process_lines noon (error_watcher returning 0)
                               [''  '', ''2024-13-45 99:99:99 ERROR disk''])))
       = [''2024-13-45 99:99:99 ERROR disk'']"
proof -
  have h1: "strip ''2024-13-45 99:99:99 ERROR disk'' \<noteq> []" by code_simp
  have v1: "timestamp (extract_error_info noon ''2024-13-45 99:99:99 ERROR disk'' ''ERROR'')
              \<noteq> now_strftime noon" by code_simp
  have v2: "map line (alerts (fst (process_lines noon (error_watcher returning 0)
                               [''  '', ''2024-13-45 99:99:99 ERROR disk''])))
       = [''2024-13-45 99:99:99 ERROR disk'']" by code_simp
  from extracted_timestamp_shape [of noon "''2024-13-45 99:99:99 ERROR disk''" "''ERROR''"
      "error_watcher returning 0" "[''  '', ''2024-13-45 99:99:99 ERROR disk'']"] h1 v1 v2
  show ?thesis by blast
qed

text \<open>
  Claim C4 as stated ("parseable back to a valid calendar date-time ... or equals the
  detection time") fails for a line that starts with digits in the form of a timestamp
  but month 13, day 45 and 99 hours: they are taken as the timestamp.
\<close>

theorem invalid_timestamp_counterexample:
  "timestamp (extract_error_info noon ''2024-13-45 99:99:99 ERROR disk'' ''ERROR'')
     = ''2024-13-45 99:99:99''
   \<and> \<not> valid_datetime ''2024-13-45 99:99:99''
   \<and> ''2024-13-45 99:99:99'' \<noteq> now_strftime noon"
  by code_simp

text \<open>
  Claim C5. \<open>_process_log_line\<close> tries the compiled patterns in the order of the
  keyword list and reports the keyword of the first pattern found in the line, and no
  other: the callback is called at most once per line, with the keyword at the least
  index whose pattern matches, and not at all when none matches. With the keywords
  \<open>ERROR\<close>, \<open>FAIL\<close> in this order and a line containing both, the reported
  \<open>matched_keyword\<close> is \<open>ERROR\<close>.
\<close>

theorem first_match_precedence:
  "length (fst (process_log_line now h l)) \<le> 1
   \<and> length (alerts (fst (process_log_line now h l))) \<le> 1
   \<and> (\<forall>i f. i < length (error_patterns h) \<and> i < length (error_keywords h)
          \<and> (error_patterns h ! i) l \<and> (\<forall>j<i. \<not> (error_patterns h ! j) l)
          \<and> callback h = Some f
        \<longrightarrow> fst (process_log_line now h l)
              = [Alert (extract_error_info now l (error_keywords h ! i))]
          \<and> map matched_keyword (alerts (fst (process_log_line now h l)))
              = [error_keywords h ! i])
   \<and> ((\<forall>i. i < length (error_patterns h) \<and> i < length (error_keywords h)
            \<longrightarrow> \<not> (error_patterns h ! i) l)
        \<longrightarrow> process_log_line now h l = ([], Returns))
   \<and> (\<forall>f0 path f h'.
          LogFileHandler_init compile_literal f0 path [''ERROR'', ''FAIL''] (Some f) = Some h'
          \<and> ci_contains ''ERROR'' l \<and> ci_contains ''FAIL'' l
        \<longrightarrow> map matched_keyword (alerts (fst (process_log_line now h' l))) = [''ERROR''])"
proof (intro conjI allI impI)
  show "length (fst (process_log_line now h l)) \<le> 1"
    by (rule process_log_line_at_most_one)
next
  show "length (alerts (fst (process_log_line now h l))) \<le> 1"
    using process_log_line_cases [of now h l] by auto
next
  fix i f
  assume a: "i < length (error_patterns h) \<and> i < length (error_keywords h)
          \<and> (error_patterns h ! i) l \<and> (\<forall>j<i. \<not> (error_patterns h ! j) l)
          \<and> callback h = Some f"
  let ?ps = "zip (error_patterns h) (error_keywords h)"
  have "check_patterns now (callback h) l ?ps =
     (case callback h of
        Some f \<Rightarrow> ([Alert (extract_error_info now l (snd (?ps ! i)))],
                   f (extract_error_info now l (snd (?ps ! i))))
      | None \<Rightarrow> ([], Returns))"
    using a by (intro check_patterns_first) auto
  then have *: "fst (process_log_line now h l)
              = [Alert (extract_error_info now l (error_keywords h ! i))]"
    using a by (simp add: process_log_line_def)
  show "fst (process_log_line now h l)
              = [Alert (extract_error_info now l (error_keywords h ! i))]"
    by (rule *)
  show "map matched_keyword (alerts (fst (process_log_line now h l)))
              = [error_keywords h ! i]"
    unfolding * by (simp add: extract_error_info_keyword)
next
  assume "\<forall>i. i < length (error_patterns h) \<and> i < length (error_keywords h)
            \<longrightarrow> \<not> (error_patterns h ! i) l"
  then show "process_log_line now h l = ([], Returns)"
    unfolding process_log_line_def by (intro check_patterns_none) auto
next
  fix f0 path f h'
  assume a: "LogFileHandler_init compile_literal f0 path [''ERROR'', ''FAIL''] (Some f) = Some h'
          \<and> ci_contains ''ERROR'' l \<and> ci_contains ''FAIL'' l"
  then have h': "h' = \<lparr>log_file_path = path, error_keywords = [''ERROR'', ''FAIL''],
       callback = Some f, last_position = get_file_size f0,
       error_patterns = [ci_contains ''ERROR'', ci_contains ''FAIL'']\<rparr>"
    by (simp add: LogFileHandler_init_def compile_literal_def)
  show "map matched_keyword (alerts (fst (process_log_line now h' l))) = [''ERROR'']"
    using a unfolding h'
    by (simp add: process_log_line_def Let_def extract_error_info_keyword)
qed

text \<open>
  A line where \<open>FAIL\<close> comes before \<open>error\<close>: the keyword reported is the one
  configured first.
\<close>

theorem first_match_precedence_witness:
  "LogFileHandler_init compile_literal (Readable []) app_log [''ERROR'', ''FAIL''] (Some returning)
     = Some \<lparr>log_file_path = app_log, error_keywords = [''ERROR'', ''FAIL''],
             callback = Some returning, last_position = 0,
             error_patterns = [ci_contains ''ERROR'', ci_contains ''FAIL'']\<rparr>
   \<and> ci_contains ''ERROR'' ''FAIL: error in job 7''
   \<and> ci_contains ''FAIL'' ''FAIL: error in job 7''
   \<and> map matched_keyword (alerts (fst (process_log_line noon
        \<lparr>log_file_path = app_log, error_keywords = [''ERROR'', ''FAIL''],
         callback = Some returning, last_position = 0,
         error_patterns = [ci_contains ''ERROR'', ci_contains ''FAIL'']\<rparr>
        ''FAIL: error in job 7''))) = [''ERROR'']
   \<and> map matched_keyword (alerts (fst (process_log_line noon
        \<lparr>log_file_path = app_log, error_keywords = [''FAIL'', ''ERROR''],
         callback = Some returning, last_position = 0,
         error_patterns = [ci_contains ''FAIL'', ci_contains ''ERROR'']\<rparr>
        ''FAIL: error in job 7''))) = [''FAIL'']"
proof -
  let ?h = "\<lparr>log_file_path = app_log, error_keywords = [''ERROR'', ''FAIL''],
             callback = Some returning, last_position = 0,
             error_patterns = [ci_contains ''ERROR'', ci_contains ''FAIL'']\<rparr>"
  let ?g = "\<lparr>log_file_path = app_log, error_keywords = [''FAIL'', ''ERROR''],
             callback = Some returning, last_position = 0,
             error_patterns = [ci_contains ''FAIL'', ci_contains ''ERROR'']\<rparr>"
  have h1: "LogFileHandler_init compile_literal (Readable []) app_log [''ERROR'', ''FAIL'']
              (Some returning) = Some ?h"
    by (simp add: LogFileHandler_init_def compile_literal_def get_file_size_def)
  have h2: "ci_contains ''ERROR'' ''FAIL: error in job 7''" by code_simp
  have h3: "ci_contains ''FAIL'' ''FAIL: error in job 7''" by code_simp
  have a: "map matched_keyword (alerts (fst (process_log_line noon ?h ''FAIL: error in job 7'')))
             = [''ERROR'']"
    using first_match_precedence [of noon ?h "''FAIL: error in job 7''"] h1 h2 h3 by blast
  have g0: "(0::nat) < length (error_patterns ?g) \<and> 0 < length (error_keywords ?g)
          \<and> (error_patterns ?g ! 0) ''FAIL: error in job 7''
          \<and> (\<forall>j<0::nat. \<not> (error_patterns ?g ! j) ''FAIL: error in job 7'')
          \<and> callback ?g = Some returning"
    using h3 by simp
  have b: "map matched_keyword (alerts (fst (process_log_line noon ?g ''FAIL: error in job 7'')))
             = [error_keywords ?g ! 0]"
    using first_match_precedence [of noon ?g "''FAIL: error in job 7''"] g0 by blast
  from h1 h2 h3 a b show ?thesis by simp
qed

text \<open>
  Claim C6. On the line \<open>2024-01-15 14:30:25 ERROR: Database connection failed\<close> with the
  matched keyword \<open>ERROR\<close> the extractor returns that timestamp, the level \<open>ERROR\<close>, the
  message \<open>Database connection failed\<close> and the matched keyword \<open>ERROR\<close>.
\<close>

theorem extractor_scenario:
  "extract_error_info now ''2024-01-15 14:30:25 ERROR: Database connection failed'' ''ERROR''
     = \<lparr>timestamp = ''2024-01-15 14:30:25'', level = ''ERROR'',
        message = ''Database connection failed'',
        line = ''2024-01-15 14:30:25 ERROR: Database connection failed'',
        matched_keyword = ''ERROR'', detected_at = now_isoformat now\<rparr>"
  by code_simp

text \<open>
  Claim C8, as amended. \<open>last_position\<close> is initialised to the size the file has at
  construction, and in every run in which the file never shrinks (the sizes found by
  the successive calls of \<open>on_modified\<close> do not decrease from the size at construction)
  every read starts at or after that size and ends at the end of the file as found:
  the bytes present at construction are never read. Every line handed on is a line of
  the text of such a read, and every record given to the callback is extracted from
  such a line.
\<close>

theorem no_replay_while_growing:
  assumes "LogFileHandler_init re_compile f0 path keywords cb = Some h"
    and "sorted (get_file_size f0 # sizes_seen evs)"
  shows "last_position h = get_file_size f0
       \<and> (\<forall>(pos, cnt, t)\<in>set (reads (snd (run evs h))).
            get_file_size f0 \<le> pos
            \<and> (\<exists>now c event. (now, Readable c, event) \<in> set evs
                  \<and> pos + cnt = length c \<and> t = universal_newlines (drop pos c)))
       \<and> (\<forall>l\<in>set (lines_handed (snd (run evs h))).
            \<exists>(pos, cnt, t)\<in>set (reads (snd (run evs h))). l \<in> set (split_on LF (strip t)))
       \<and> (\<forall>info\<in>set (alerts (snd (run evs h))).
            \<exists>l\<in>set (lines_handed (snd (run evs h))). \<exists>k\<in>set keywords. \<exists>now.
               info = extract_error_info now l k)"
proof -
  note init = LogFileHandler_init_fields [OF assms(1)]
  have "sorted (last_position h # sizes_seen evs)" using assms(2) init by simp
  from run_growing [OF this]
  have 2: "\<forall>(pos, cnt, t)\<in>set (reads (snd (run evs h))).
            get_file_size f0 \<le> pos
            \<and> (\<exists>now c event. (now, Readable c, event) \<in> set evs
                  \<and> pos + cnt = length c \<and> t = universal_newlines (drop pos c))"
    using init by simp
  have 3: "\<forall>l\<in>set (lines_handed (snd (run evs h))).
            \<exists>(pos, cnt, t)\<in>set (reads (snd (run evs h))). l \<in> set (split_on LF (strip t))"
    using run_lines_from_reads by blast
  have 4: "\<forall>info\<in>set (alerts (snd (run evs h))).
            \<exists>l\<in>set (lines_handed (snd (run evs h))). \<exists>k\<in>set keywords. \<exists>now.
               info = extract_error_info now l k"
    using run_alerts_from_lines [of _ evs h] init by auto
  from init 2 3 4 show ?thesis by blast
qed

text \<open>One line at construction, then two appends.\<close>

theorem no_replay_while_growing_witness:
  "LogFileHandler_init compile_literal (Readable line_a) app_log [''ERROR''] (Some returning)
     = Some (error_watcher returning 8)
   \<and> sorted (get_file_size (Readable line_a)
        # sizes_seen [(noon, Readable (line_a @ line_b), app_log_event),
                      (noon, Readable (line_a @ line_b @ line_c), app_log_event)])
   \<and> reads (snd (run [(noon, Readable (line_a @ line_b), app_log_event),
                      (noon, Readable (line_a @ line_b @ line_c), app_log_event)]
                     (error_watcher returning 8)))
       = [(8, 8, line_b), (16, 9, line_c)]
   \<and> lines_handed (snd (run [(noon, Readable (line_a @ line_b), app_log_event),
                      (noon, Readable (line_a @ line_b @ line_c), app_log_event)]
                     (error_watcher returning 8)))
       = [''ERROR b'', ''login ok'']
   \<and> last_position (error_watcher returning 8) = get_file_size (Readable line_a)"
proof -
  let ?evs = "[(noon, Readable (line_a @ line_b), app_log_event),
               (noon, Readable (line_a @ line_b @ line_c), app_log_event)]"
  have h1: "LogFileHandler_init compile_literal (Readable line_a) app_log [''ERROR'']
              (Some returning) = Some (error_watcher returning 8)"
    by (simp add: LogFileHandler_init_def compile_literal_def get_file_size_def
        error_watcher_def line_a_def)
  have h2: "sorted (get_file_size (Readable line_a) # sizes_seen ?evs)" by code_simp
  have v1: "reads (snd (run ?evs (error_watcher returning 8)))
              = [(8, 8, line_b), (16, 9, line_c)]" by code_simp
  have v2: "lines_handed (snd (run ?evs (error_watcher returning 8)))
              = [''ERROR b'', ''login ok'']" by code_simp
  from no_replay_while_growing [OF h1 h2]
  have "last_position (error_watcher returning 8) = get_file_size (Readable line_a)"
    by fast
  with h1 h2 v1 v2 show ?thesis by blast
qed

text \<open>
  Claim C8 as stated ("for every run") fails in a run with a truncation that keeps a
  prefix: the file holds two lines when the handler is built, it is then cut back to the
  first of them, and that line, present at construction, is handed to the callback.
\<close>

theorem pre_existing_content_counterexample:
  "map last_position (case LogFileHandler_init compile_literal (Readable (line_a @ line_b)) app_log
          [''ERROR''] (Some returning) of None \<Rightarrow> [] | Some h \<Rightarrow> [h]) = [16]
   \<and> contains ''ERROR a'' (line_a @ line_b)
   \<and> map (\<lambda>h. lines_handed (snd (run [(noon, Readable line_a, app_log_event)] h)))
        (case LogFileHandler_init compile_literal (Readable (line_a @ line_b)) app_log
          [''ERROR''] (Some returning) of None \<Rightarrow> [] | Some h \<Rightarrow> [h])
       = [[''ERROR a'']]
   \<and> map (\<lambda>h. map line (alerts (snd (run [(noon, Readable line_a, app_log_event)] h))))
        (case LogFileHandler_init compile_literal (Readable (line_a @ line_b)) app_log
          [''ERROR''] (Some returning) of None \<Rightarrow> [] | Some h \<Rightarrow> [h])
       = [[''ERROR a'']]"
  by code_simp

text \<open>
  Claim C9, as amended. In every call of \<open>on_modified\<close> for the watched file that finds
  the file, readable, larger than \<open>last_position\<close>, exactly the bytes from
  \<open>last_position\<close> to the size found are read, in one read, and \<open>last_position\<close> becomes
  that size. The text read is stripped of surrounding white space and split at line
  feeds, so that a final line feed leaves no empty piece, while a final line without
  one is a piece like the others; blank pieces are dropped and the others are handed
  to line processing in the order of the file, up to and including the first whose
  processing raises: all of them when none raises.
\<close>

theorem new_content_emission:
  assumes "\<not> is_directory event" and "src_path event = log_file_path h"
    and "last_position h < length content"
  shows "fst (on_modified now (Readable content) event h) = h\<lparr>last_position := length content\<rparr>
       \<and> reads (snd (on_modified now (Readable content) event h)) =
           [(last_position h, length content - last_position h,
             universal_newlines
               (take (length content - last_position h) (drop (last_position h) content)))]
       \<and> lines_handed (snd (on_modified now (Readable content) event h)) =
           take (Suc (length (takeWhile (\<lambda>l. snd (process_log_line now h l) = Returns)
                                (fresh_lines content (last_position h)))))
                (fresh_lines content (last_position h))
       \<and> ((\<forall>l\<in>set (fresh_lines content (last_position h)).
              snd (process_log_line now h l) = Returns)
          \<longrightarrow> lines_handed (snd (on_modified now (Readable content) event h))
                = fresh_lines content (last_position h))"
proof -
  have le: "last_position h \<le> length content" using assms(3) by simp
  note om = on_modified_grown [OF assms]
  have rt: "read_text content (last_position h) (length content)
               = universal_newlines (drop (last_position h) content)"
    using le by (rule read_text_whole)
  have 1: "fst (on_modified now (Readable content) event h) = h\<lparr>last_position := length content\<rparr>"
    by (simp add: om read_new_content_state)
  have 2: "reads (snd (on_modified now (Readable content) event h)) =
           [(last_position h, length content - last_position h,
             universal_newlines
               (take (length content - last_position h) (drop (last_position h) content)))]"
    by (simp add: om read_new_content_reads read_text_exact [OF le])
  have 3: "lines_handed (snd (on_modified now (Readable content) event h)) =
           take (Suc (length (takeWhile (\<lambda>l. snd (process_log_line now h l) = Returns)
                                (fresh_lines content (last_position h)))))
                (fresh_lines content (last_position h))"
    by (simp add: om read_new_content_lines rt process_lines_handed fresh_lines_def)
  have 4: "(\<forall>l\<in>set (fresh_lines content (last_position h)).
              snd (process_log_line now h l) = Returns)
          \<longrightarrow> lines_handed (snd (on_modified now (Readable content) event h))
                = fresh_lines content (last_position h)"
    by (simp add: om read_new_content_lines rt process_lines_handed_all fresh_lines_def)
  from 1 2 3 4 show ?thesis by blast
qed

text \<open>Offset 8; a blank line and two lines have been appended.\<close>

theorem new_content_emission_witness:
  "\<not> is_directory app_log_event
   \<and> src_path app_log_event = log_file_path (error_watcher returning 8)
   \<and> last_position (error_watcher returning 8) < length (line_a @ [LF] @ line_b @ line_c)
   \<and> last_position (fst (on_modified noon (Readable (line_a @ [LF] @ line_b @ line_c))
                            app_log_event (error_watcher returning 8))) = 26
   \<and> reads (snd (on_modified noon (Readable (line_a @ [LF] @ line_b @ line_c)) app_log_event
                   (error_watcher returning 8)))
       = [(8, 18, [LF] @ line_b @ line_c)]
   \<and> lines_handed (snd (on_modified noon (Readable (line_a @ [LF] @ line_b @ line_c))
                          app_log_event (error_watcher returning 8)))
       = [''ERROR b'', ''login ok'']"
proof -
  let ?h = "error_watcher returning 8"
  let ?c = "line_a @ [LF] @ line_b @ line_c"
  have h1: "\<not> is_directory app_log_event" by code_simp
  have h2: "src_path app_log_event = log_file_path ?h" by code_simp
  have h3: "last_position ?h < length ?c" by code_simp
  have ok: "\<forall>l\<in>set (fresh_lines ?c (last_position ?h)).
              snd (process_log_line noon ?h l) = Returns" by code_simp
  have v1: "length ?c = 26" by code_simp
  have v2: "(last_position ?h, length ?c - last_position ?h,
             universal_newlines (take (length ?c - last_position ?h) (drop (last_position ?h) ?c)))
            = (8, 18, [LF] @ line_b @ line_c)" by code_simp
  have v3: "fresh_lines ?c (last_position ?h) = [''ERROR b'', ''login ok'']" by code_simp
  from new_content_emission [OF h1 h2 h3, of noon] ok
  have "fst (on_modified noon (Readable ?c) app_log_event ?h) = ?h\<lparr>last_position := length ?c\<rparr>"
    and "reads (snd (on_modified noon (Readable ?c) app_log_event ?h)) =
           [(last_position ?h, length ?c - last_position ?h,
             universal_newlines (take (length ?c - last_position ?h) (drop (last_position ?h) ?c)))]"
    and "lines_handed (snd (on_modified noon (Readable ?c) app_log_event ?h))
           = fresh_lines ?c (last_position ?h)"
    by blast+
  then show ?thesis
    unfolding v2 v3 using h1 h2 h3 v1 by simp
qed

text \<open>
  Claim C9 as stated ("no partial final line is emitted") fails: a line appended without
  its line feed is handed on and alerts as it stands, and its end, appended later, is
  handed on as a line of its own.
\<close>

theorem partial_final_line_counterexample:
  "lines_handed (snd (run [(noon, Readable ''ERROR: disk'', app_log_event)]
                        (error_watcher returning 0))) = [''ERROR: disk'']
   \<and> map message (alerts (snd (run [(noon, Readable ''ERROR: disk'', app_log_event)]
                        (error_watcher returning 0)))) = [''disk'']
   \<and> lines_handed (snd (run [(noon, Readable ''ERROR: disk'', app_log_event),
                             (noon, Readable (''ERROR: disk full'' @ [LF]), app_log_event)]
                        (error_watcher returning 0))) = [''ERROR: disk'', ''full'']"
  by code_simp


end
